theory Spec2Isabelle
  imports Main "HOL-Library.Multiset"
begin

section \<open>Strings: the character classes and string primitives used by the text processor\<close>

text \<open>
  A Python \<open>str\<close> is a sequence of code points. A \<^typ>\<open>char\<close> is read here as the code
  point with the same number, so a \<^typ>\<open>string\<close> is a Python string over the code points
  0 to 255. The classes below are the ones the \<open>re\<close> module and the \<open>str\<close> methods use
  on that range: \<open>\s\<close>, \<open>str.split()\<close> and \<open>str.strip()\<close> share one whitespace class,
  and \<open>\w\<close> is the alphanumeric class plus the underscore.
\<close>

definition is_space :: "char \<Rightarrow> bool" where
  "is_space c = (of_char c \<in> {9, 10, 11, 12, 13, 28, 29, 30, 31, 32, 133, 160 :: nat})"

definition is_word :: "char \<Rightarrow> bool" where
  "is_word c =
     (let n = (of_char c :: nat) in
      (48 \<le> n \<and> n \<le> 57) \<or> (65 \<le> n \<and> n \<le> 90) \<or> n = 95 \<or> (97 \<le> n \<and> n \<le> 122) \<or>
      n = 170 \<or> n = 178 \<or> n = 179 \<or> n = 181 \<or> n = 185 \<or> n = 186 \<or>
      (188 \<le> n \<and> n \<le> 190) \<or> (192 \<le> n \<and> n \<le> 214) \<or> (216 \<le> n \<and> n \<le> 246) \<or>
      (248 \<le> n \<and> n \<le> 255))"

text \<open>The character set \<open>[.!?]\<close> that ends a sentence, and the set \<open>.,!?\<close> of \<open>rstrip\<close>.\<close>

definition is_terminator :: "char \<Rightarrow> bool" where
  "is_terminator c = (c = CHR ''.'' \<or> c = CHR ''!'' \<or> c = CHR ''?'')"

definition is_trailing_punct :: "char \<Rightarrow> bool" where
  "is_trailing_punct c = (c = CHR ''.'' \<or> c = CHR '','' \<or> c = CHR ''!'' \<or> c = CHR ''?'')"

text \<open>The class \<open>[\w\s.,!?-]\<close> whose complement \<open>clean_text\<close> deletes.\<close>

definition is_kept :: "char \<Rightarrow> bool" where
  "is_kept c = (is_word c \<or> is_space c \<or> c = CHR ''.'' \<or> c = CHR '','' \<or> c = CHR ''!'' \<or>
                c = CHR ''?'' \<or> c = CHR ''-'')"

text \<open>\<open>re.sub(r'\s+', ' ', text)\<close>: every maximal run of whitespace becomes one space.\<close>

function collapse_whitespace :: "string \<Rightarrow> string" where
  "collapse_whitespace [] = []"
| "collapse_whitespace (c # cs) =
     (if is_space c then CHR '' '' # collapse_whitespace (dropWhile is_space cs)
      else c # collapse_whitespace cs)"
  by pat_completeness auto
termination
  by (relation "measure length") (auto simp: less_Suc_eq_le length_dropWhile_le)

text \<open>\<open>re.sub(r'[^\w\s.,!?-]', '', text)\<close>: every character outside the class is deleted.\<close>

definition remove_special :: "string \<Rightarrow> string" where
  "remove_special s = filter is_kept s"

text \<open>\<open>str.strip()\<close> and \<open>str.rstrip('.,!?')\<close>.\<close>

definition strip :: "string \<Rightarrow> string" where
  "strip s = rev (dropWhile is_space (rev (dropWhile is_space s)))"

definition rstrip_punct :: "string \<Rightarrow> string" where
  "rstrip_punct s = rev (dropWhile is_trailing_punct (rev s))"

text \<open>\<open>str.split()\<close>: the maximal runs of non-whitespace characters, in order.\<close>

function split_ws :: "string \<Rightarrow> string list" where
  "split_ws [] = []"
| "split_ws (c # cs) =
     (if is_space c then split_ws cs
      else (c # takeWhile (\<lambda>x. \<not> is_space x) cs) # split_ws (dropWhile (\<lambda>x. \<not> is_space x) cs))"
  by pat_completeness auto
termination
  by (relation "measure length") (auto simp: less_Suc_eq_le length_dropWhile_le)

text \<open>
  \<open>re.split(r'[.!?]+', text)\<close>: the pieces between the maximal runs of terminators; a
  run at either end of the text leaves an empty piece there.
\<close>

function re_split_terminators :: "string \<Rightarrow> string list" where
  "re_split_terminators s =
     (case dropWhile (\<lambda>x. \<not> is_terminator x) s of
        [] \<Rightarrow> [s]
      | t # rest \<Rightarrow> takeWhile (\<lambda>x. \<not> is_terminator x) s # re_split_terminators (dropWhile is_terminator rest))"
  by pat_completeness auto
termination
proof (relation "measure length", simp, simp)
  fix s :: string and t rest
  assume h: "dropWhile (\<lambda>x. \<not> is_terminator x) s = t # rest"
  have "length (dropWhile is_terminator rest) \<le> length rest"
    by (rule length_dropWhile_le)
  moreover have "length (t # rest) \<le> length s"
    using length_dropWhile_le [of "\<lambda>x. \<not> is_terminator x" s] h by simp
  ultimately show "length (dropWhile is_terminator rest) < length s"
    by simp
qed

declare re_split_terminators.simps [simp del]

text \<open>\<open>' '.join(words)\<close>.\<close>

fun join_space :: "string list \<Rightarrow> string" where
  "join_space [] = []"
| "join_space [w] = w"
| "join_space (w # ws) = w @ CHR '' '' # join_space ws"

section \<open>The text processor: cleaning and segmentation\<close>

definition clean_text :: "string \<Rightarrow> string" where
  "clean_text text = strip (remove_special (collapse_whitespace text))"

definition split_sentences :: "string \<Rightarrow> string list" where
  "split_sentences text =
     (let sentences = re_split_terminators text;
          sentences = map strip (filter (\<lambda>s. strip s \<noteq> []) sentences);
          sentences = filter (\<lambda>s. 3 \<le> length (split_ws s)) sentences
      in sentences)"

text \<open>A run of two or more whitespace characters somewhere in the string.\<close>

fun has_space_run :: "string \<Rightarrow> bool" where
  "has_space_run (a # b # cs) = ((is_space a \<and> is_space b) \<or> has_space_run (b # cs))"
| "has_space_run _ = False"

section \<open>Python slices and errors\<close>

datatype error = IndexError | ValueError | LibraryError

definition bind :: "error + 'a \<Rightarrow> ('a \<Rightarrow> error + 'b) \<Rightarrow> error + 'b" where
  "bind r f = (case r of Inl e \<Rightarrow> Inl e | Inr x \<Rightarrow> f x)"

text \<open>
  \<open>xs[:m]\<close> and \<open>xs[s:]\<close>: a negative bound counts from the end, and a bound outside
  the list is clipped (\<^term>\<open>nat\<close> of a negative number is 0).
\<close>

definition py_take :: "int \<Rightarrow> 'a list \<Rightarrow> 'a list" where
  "py_take m xs = (if m < 0 then take (nat (int (length xs) + m)) xs else take (nat m) xs)"

definition py_drop :: "int \<Rightarrow> 'a list \<Rightarrow> 'a list" where
  "py_drop s xs = (if s < 0 then drop (nat (int (length xs) + s)) xs else drop (nat s) xs)"

text \<open>\<open>[xs[i] for i in indices]\<close> for non-negative indices: the first one out of range raises.\<close>

fun lookup_all :: "'a list \<Rightarrow> nat list \<Rightarrow> error + 'a list" where
  "lookup_all xs [] = Inr []"
| "lookup_all xs (i # is) =
     (if i < length xs then bind (lookup_all xs is) (\<lambda>ys. Inr (xs ! i # ys)) else Inl IndexError)"

text \<open>\<open>list.sort(key=..., reverse=True)\<close>: the list is reversed, sorted stably and reversed again.\<close>

definition sort_reverse :: "('a \<Rightarrow> 'k::linorder) \<Rightarrow> 'a list \<Rightarrow> 'a list" where
  "sort_reverse key xs = rev (sort_key key (rev xs))"

text \<open>\<open>numpy.argmax\<close>: the first index of the maximum; an empty array raises.\<close>

definition argmax :: "'s::linorder list \<Rightarrow> error + nat" where
  "argmax xs = (if xs = [] then Inl ValueError
                else Inr (length (takeWhile (\<lambda>x. x \<noteq> Max (set xs)) xs)))"

section \<open>Configuration and the libraries outside the repository\<close>

definition MIN_CLUSTER_SIZE :: int where "MIN_CLUSTER_SIZE = 2"
definition CLUSTERING_METHOD :: string where "CLUSTERING_METHOD = ''hdbscan''"
definition MAX_TOPICS :: int where "MAX_TOPICS = 10"
definition MAX_BULLETS_PER_SLIDE :: int where "MAX_BULLETS_PER_SLIDE = 5"

text \<open>
  The two clusterers \<open>cluster_sentences\<close> constructs, with the arguments it passes:
  \<open>HDBSCAN min_cluster_size metric\<close> and \<open>KMeans n_clusters random_state n_init\<close>.
\<close>

datatype clusterer =
  HDBSCAN int string
| KMeans int int int

text \<open>
  The embedding model, the clusterers and the numeric routines are libraries the
  repository calls; they are parameters here. \<open>'e\<close> is a row of the embedding matrix
  and \<open>'s\<close> a similarity score (a float, taken as any linear order; NaN is not modelled).
  \<^item> \<open>hdbscan_available\<close>: whether \<open>import hdbscan\<close> succeeded;
  \<^item> \<open>encode\<close>: \<open>SentenceTransformer.encode\<close>;
  \<^item> \<open>fit_predict\<close>: the clusterer's labels for the rows;
  \<^item> \<open>centroid_similarity\<close>: \<open>cosine_similarity(embeddings, embeddings.mean(axis=0).reshape(1, -1)).flatten()\<close>;
  \<^item> \<open>argsort\<close>: \<open>numpy.ndarray.argsort\<close>.
  Each call may raise.
\<close>

record ('e, 's) backend =
  hdbscan_available :: bool
  encode :: "string list \<Rightarrow> error + 'e list"
  fit_predict :: "clusterer \<Rightarrow> 'e list \<Rightarrow> error + int list"
  centroid_similarity :: "'e list \<Rightarrow> error + 's list"
  argsort :: "'s list \<Rightarrow> nat list"

section \<open>The text processor: embeddings and clustering\<close>

definition generate_embeddings :: "('e, 's) backend \<Rightarrow> string list \<Rightarrow> error + 'e list" where
  "generate_embeddings env sentences = (if sentences = [] then Inr [] else encode env sentences)"

text \<open>
  A Python dict keeps its keys in insertion order, so the clusters are an association list
  with distinct keys. \<open>dict_setdefault\<close> is \<open>if label not in clusters: clusters[label] = []\<close>
  and \<open>dict_append\<close> is \<open>clusters[label].append(s)\<close>.
\<close>

type_synonym clusters = "(int \<times> string list) list"

definition dict_setdefault :: "clusters \<Rightarrow> int \<Rightarrow> clusters" where
  "dict_setdefault clusters label =
     (if label \<notin> set (map fst clusters) then clusters @ [(label, [])] else clusters)"

definition dict_append :: "clusters \<Rightarrow> int \<Rightarrow> string \<Rightarrow> clusters" where
  "dict_append clusters label s =
     map (\<lambda>(k, v). if k = label then (k, v @ [s]) else (k, v)) clusters"

text \<open>The noise label of HDBSCAN is replaced by \<open>max(labels) + 1\<close>.\<close>

definition relabel :: "int list \<Rightarrow> int \<Rightarrow> int" where
  "relabel labels label = (if label = - 1 then Max (set labels) + 1 else label)"

text \<open>
  The loop \<open>for idx, label in enumerate(labels)\<close>: \<open>idx\<close> is the position reached and the
  fourth argument the labels still to visit.
\<close>

fun group_loop :: "string list \<Rightarrow> int list \<Rightarrow> nat \<Rightarrow> int list \<Rightarrow> clusters \<Rightarrow> error + clusters" where
  "group_loop sentences labels idx [] clusters = Inr clusters"
| "group_loop sentences labels idx (label # rest) clusters =
     (let label = relabel labels label;
          clusters = dict_setdefault clusters label
      in if idx < length sentences
         then group_loop sentences labels (Suc idx) rest (dict_append clusters label (sentences ! idx))
         else Inl IndexError)"

definition cluster_sentences ::
  "('e, 's) backend \<Rightarrow> string list \<Rightarrow> 'e list \<Rightarrow> int option \<Rightarrow> error + clusters" where
  "cluster_sentences env sentences embeddings n_clusters =
     (if length sentences < 2 then Inr [(0, sentences)]
      else
        let n_clusters = (case n_clusters of
                            None \<Rightarrow> min MAX_TOPICS (max 2 (int (length sentences) div 5))
                          | Some k \<Rightarrow> k);
            clusterer = (if CLUSTERING_METHOD = ''hdbscan'' \<and> hdbscan_available env
                         then HDBSCAN MIN_CLUSTER_SIZE ''euclidean''
                         else KMeans (min n_clusters (int (length sentences))) 42 10)
        in bind (fit_predict env clusterer embeddings)
             (\<lambda>labels. group_loop sentences labels 0 labels []))"

section \<open>The text processor: titles and bullets\<close>

definition shorten_sentence :: "string \<Rightarrow> int \<Rightarrow> string" where
  "shorten_sentence sentence max_words =
     (let words = split_ws sentence
      in if int (length words) \<le> max_words then rstrip_punct sentence
         else join_space (py_take max_words words) @ ''...'')"

definition generate_topic_title :: "('e, 's::linorder) backend \<Rightarrow> string list \<Rightarrow> 'e list \<Rightarrow> error + string" where
  "generate_topic_title env sentences embeddings =
     (if sentences = [] then Inr ''Topic''
      else if length sentences = 1 then Inr (shorten_sentence (sentences ! 0) 6)
      else bind (centroid_similarity env embeddings) (\<lambda>similarities.
           bind (argmax similarities) (\<lambda>best_idx.
           if best_idx < length sentences then Inr (shorten_sentence (sentences ! best_idx) 6)
           else Inl IndexError)))"

definition rank_bullets ::
  "('e, 's) backend \<Rightarrow> string list \<Rightarrow> 'e list \<Rightarrow> int \<Rightarrow> error + string list" where
  "rank_bullets env sentences embeddings max_bullets =
     (if int (length sentences) \<le> max_bullets then Inr sentences
      else bind (centroid_similarity env embeddings) (\<lambda>centrality_scores.
           let top_indices = rev (py_drop (- max_bullets) (argsort env centrality_scores))
           in lookup_all sentences top_indices))"

section \<open>The text processor: the pipeline\<close>

record topic =
  topic_id :: int
  title :: string
  bullets :: "string list"
  sentence_count :: nat

record result =
  topics :: "topic list"
  slide_count :: nat
  total_sentences :: nat

text \<open>
  The loop over \<open>clusters.items()\<close>. \<open>embeddings[cluster_indices]\<close> selects rows of the
  matrix and raises when an index is past its last row.
\<close>

fun build_topics ::
  "('e, 's::linorder) backend \<Rightarrow> string list \<Rightarrow> 'e list \<Rightarrow> clusters \<Rightarrow> error + topic list" where
  "build_topics env sentences embeddings [] = Inr []"
| "build_topics env sentences embeddings ((cluster_id, cluster_sents) # rest) =
     (let cluster_indices = filter (\<lambda>i. sentences ! i \<in> set cluster_sents) [0..<length sentences]
      in bind (lookup_all embeddings cluster_indices) (\<lambda>cluster_embeddings.
         bind (generate_topic_title env cluster_sents cluster_embeddings) (\<lambda>t.
         bind (rank_bullets env cluster_sents cluster_embeddings MAX_BULLETS_PER_SLIDE) (\<lambda>bs.
         bind (build_topics env sentences embeddings rest) (\<lambda>ts.
         Inr (\<lparr>topic_id = cluster_id, title = t, bullets = bs,
               sentence_count = length cluster_sents\<rparr> # ts))))))"

definition process_text :: "('e, 's::linorder) backend \<Rightarrow> string \<Rightarrow> error + result" where
  "process_text env text =
     (let cleaned = clean_text text;
          sentences = split_sentences cleaned
      in if sentences = [] then Inr \<lparr>topics = [], slide_count = 0, total_sentences = 0\<rparr>
         else
           bind (generate_embeddings env sentences) (\<lambda>embeddings.
           bind (cluster_sentences env sentences embeddings None) (\<lambda>clusters.
           bind (build_topics env sentences embeddings clusters) (\<lambda>ts.
           let sorted_topics = sort_reverse (\<lambda>t. sentence_count t) ts
           in Inr \<lparr>topics = sorted_topics,
                   slide_count = length sorted_topics + 2,
                   total_sentences = length sentences\<rparr>))))"

section \<open>Notions used to state the properties\<close>

text \<open>The distinct elements of a list in the order in which they first occur.\<close>

fun first_seen :: "'a list \<Rightarrow> 'a list" where
  "first_seen [] = []"
| "first_seen (x # xs) = x # first_seen (filter (\<lambda>y. y \<noteq> x) xs)"

text \<open>One pass of the grouping loop, and the sentences stored under a key.\<close>

definition group_step :: "int list \<Rightarrow> int \<times> string \<Rightarrow> clusters \<Rightarrow> clusters" where
  "group_step labels p clusters =
     dict_append (dict_setdefault clusters (relabel labels (fst p))) (relabel labels (fst p)) (snd p)"

definition cluster_of :: "clusters \<Rightarrow> int \<Rightarrow> string list" where
  "cluster_of clusters k = (case map_of clusters k of None \<Rightarrow> [] | Some v \<Rightarrow> v)"

text \<open>
  A test double for the libraries: a sentence is embedded as its length, a row of even
  length is labelled noise and a row of odd length is put in cluster 0, the similarity
  scores are the rows themselves, and \<open>argsort\<close> is a stable sort of the indices. The
  second double has no \<open>hdbscan\<close>, and the third one's clusterer always raises.
\<close>

definition demo_backend :: "(nat, nat) backend" where
  "demo_backend =
     \<lparr>hdbscan_available = True,
      encode = (\<lambda>ss. Inr (map length ss)),
      fit_predict = (\<lambda>c es. Inr (map (\<lambda>e. if even e then - 1 else 0) es)),
      centroid_similarity = (\<lambda>es. Inr es),
      argsort = (\<lambda>xs. sort_key (\<lambda>i. xs ! i) [0..<length xs])\<rparr>"

definition kmeans_backend :: "(nat, nat) backend" where
  "kmeans_backend = demo_backend\<lparr>hdbscan_available := False\<rparr>"

definition failing_backend :: "(nat, nat) backend" where
  "failing_backend = demo_backend\<lparr>fit_predict := (\<lambda>c es. Inl LibraryError)\<rparr>"

text \<open>
  The contracts of the libraries on a list of sentences: the model returns one embedding
  row per sentence; every clusterer returns one label per sentence, and labels equal
  sentences alike; the similarity routine returns one score per row; \<open>argsort\<close>
  returns positions of its argument.
\<close>

definition reliable :: "('e, 's) backend \<Rightarrow> string list \<Rightarrow> bool" where
  "reliable env sentences \<longleftrightarrow>
     (\<exists>embeddings. encode env sentences = Inr embeddings \<and>
        length embeddings = length sentences \<and>
        (\<forall>clusterer. \<exists>labels. fit_predict env clusterer embeddings = Inr labels \<and>
           length labels = length sentences \<and>
           (\<forall>i<length sentences. \<forall>j<length sentences.
              sentences ! i = sentences ! j \<longrightarrow> labels ! i = labels ! j))) \<and>
     (\<forall>rows. rows \<noteq> [] \<longrightarrow>
        (\<exists>scores. centroid_similarity env rows = Inr scores \<and> length scores = length rows \<and>
           (\<forall>i\<in>set (argsort env scores). i < length scores)))"

section \<open>Facts about the string primitives\<close>


lemma strip_subset: "set (strip s) \<subseteq> set s"
  by (auto simp: strip_def dest!: set_dropWhileD)

lemma strip_fixed:
  assumes "s = [] \<or> (\<not> is_space (hd s) \<and> \<not> is_space (last s))"
  shows "strip s = s"
proof (cases "s = []")
  case True then show ?thesis by (simp add: strip_def)
next
  case False
  with assms have h: "\<not> is_space (hd s)" and l: "\<not> is_space (last s)" by auto
  have "dropWhile is_space s = s" using h by (simp add: dropWhile_eq_self_iff)
  moreover have "hd (rev s) = last s" using False by (simp add: hd_rev)
  then have "dropWhile is_space (rev s) = rev s"
    using l by (simp add: dropWhile_eq_self_iff)
  ultimately show ?thesis by (simp add: strip_def)
qed

lemma strip_ends:
  assumes "strip s \<noteq> []"
  shows "\<not> is_space (hd (strip s)) \<and> \<not> is_space (last (strip s))"
proof -
  let ?d = "dropWhile is_space s"
  let ?e = "dropWhile is_space (rev ?d)"
  from assms have e: "?e \<noteq> []" by (simp add: strip_def)
  have d: "?d \<noteq> []"
  proof
    assume "?d = []"
    then have "?e = []" by (simp only: rev.simps dropWhile.simps)
    with e show False by simp
  qed
  have "last (strip s) = hd ?e" by (simp add: strip_def last_rev)
  moreover have "\<not> is_space (hd ?e)" using e by (rule hd_dropWhile)
  moreover have "hd (strip s) = last ?e" using e by (simp add: strip_def hd_rev)
  moreover have "last ?e = last (rev ?d)" using e by (metis last_appendR takeWhile_dropWhile_id)
  moreover have "last (rev ?d) = hd ?d" using d by (simp add: last_rev)
  moreover have "\<not> is_space (hd ?d)" using d by (rule hd_dropWhile)
  ultimately show ?thesis by simp
qed

lemma strip_idem: "strip (strip s) = strip s"
  using strip_ends [of s] by (intro strip_fixed) blast

lemma re_split_Nil:
  "dropWhile (\<lambda>x. \<not> is_terminator x) s = [] \<Longrightarrow> re_split_terminators s = [s]"
  by (subst re_split_terminators.simps) (simp only: list.case)

lemma re_split_Cons:
  "dropWhile (\<lambda>x. \<not> is_terminator x) s = t # rest \<Longrightarrow>
   re_split_terminators s =
     takeWhile (\<lambda>x. \<not> is_terminator x) s # re_split_terminators (dropWhile is_terminator rest)"
  by (subst re_split_terminators.simps) (simp only: list.case)

lemma re_split_pieces:
  "p \<in> set (re_split_terminators s) \<Longrightarrow> c \<in> set p \<Longrightarrow> \<not> is_terminator c \<and> c \<in> set s"
proof (induction s arbitrary: p rule: re_split_terminators.induct)
  case (1 s)
  show ?case
  proof (cases "dropWhile (\<lambda>x. \<not> is_terminator x) s")
    case Nil
    then have "\<forall>x\<in>set s. \<not> is_terminator x" by (simp add: dropWhile_eq_Nil_conv)
    moreover from "1.prems" have "p = s" by (simp add: re_split_Nil [OF Nil])
    ultimately show ?thesis using "1.prems" by simp
  next
    case (Cons t rest)
    from Cons "1.prems"(1) consider "p = takeWhile (\<lambda>x. \<not> is_terminator x) s"
      | "p \<in> set (re_split_terminators (dropWhile is_terminator rest))"
      by (auto simp: re_split_Cons [OF Cons])
    then show ?thesis
    proof cases
      case 1
      then show ?thesis using "1.prems"(2) by (auto dest: set_takeWhileD)
    next
      case 2
      from "1.IH" [OF Cons 2 "1.prems"(2)]
      have "\<not> is_terminator c" and "c \<in> set (dropWhile is_terminator rest)" by auto
      moreover have "set (dropWhile is_terminator rest) \<subseteq> set s"
        using set_dropWhileD [of _ is_terminator rest] set_dropWhileD [of _ "\<lambda>x. \<not> is_terminator x" s] Cons
        by (metis list.set_intros(2) subsetI)
      ultimately show ?thesis by auto
    qed
  qed
qed

lemma collapse_spaces:
  "c \<in> set (collapse_whitespace s) \<Longrightarrow> is_space c \<Longrightarrow> c = CHR '' ''"
  by (induction s rule: collapse_whitespace.induct) (auto split: if_splits)

lemma collapse_subset:
  "c \<in> set (collapse_whitespace s) \<Longrightarrow> c = CHR '' '' \<or> c \<in> set s"
  by (induction s rule: collapse_whitespace.induct) (auto split: if_splits dest: set_dropWhileD)


lemma collapse_no_leading_space:
  "s = [] \<or> \<not> is_space (hd s) \<Longrightarrow> collapse_whitespace s = [] \<or> \<not> is_space (hd (collapse_whitespace s))"
  by (cases s) auto

lemma collapse_no_run: "\<not> has_space_run (collapse_whitespace s)"
proof (induction s rule: collapse_whitespace.induct)
  case 1
  then show ?case by simp
next
  case (2 c cs)
  show ?case
  proof (cases "is_space c")
    case True
    let ?d = "dropWhile is_space cs"
    have "?d = [] \<or> \<not> is_space (hd ?d)" using hd_dropWhile [of is_space cs] by blast
    then have h: "collapse_whitespace ?d = [] \<or> \<not> is_space (hd (collapse_whitespace ?d))"
      by (rule collapse_no_leading_space)
    from 2 True have "\<not> has_space_run (collapse_whitespace ?d)" by simp
    with h True show ?thesis by (cases "collapse_whitespace ?d") auto
  next
    case False
    with 2 have "\<not> has_space_run (collapse_whitespace cs)" by simp
    with False show ?thesis by (cases "collapse_whitespace cs") auto
  qed
qed

lemma clean_text_chars:
  "c \<in> set (clean_text t) \<Longrightarrow> is_kept c \<and> (is_space c \<longrightarrow> c = CHR '' '')"
  using strip_subset [of "remove_special (collapse_whitespace t)"]
  by (auto simp: clean_text_def remove_special_def dest: collapse_spaces)

lemma filter_not_dropWhile: "filter (\<lambda>x. \<not> P x) (dropWhile P xs) = filter (\<lambda>x. \<not> P x) xs"
  by (induction xs) auto

lemma re_split_concat: "concat (re_split_terminators s) = filter (\<lambda>c. \<not> is_terminator c) s"
proof (induction s rule: re_split_terminators.induct)
  case (1 s)
  let ?N = "\<lambda>x. \<not> is_terminator x"
  show ?case
  proof (cases "dropWhile ?N s")
    case Nil
    then have "\<forall>x\<in>set s. ?N x" by (simp add: dropWhile_eq_Nil_conv)
    then have "filter ?N s = s" by simp
    then show ?thesis by (simp only: re_split_Nil [OF Nil] concat.simps append_Nil2)
  next
    case (Cons t rest)
    have t: "is_terminator t" by (metis Cons hd_dropWhile list.sel(1) list.distinct(1))
    have f1: "filter ?N (takeWhile ?N s) = takeWhile ?N s"
      by (rule filter_True) (auto dest: set_takeWhileD)
    have "filter ?N s = filter ?N (takeWhile ?N s) @ filter ?N (dropWhile ?N s)"
      by (simp only: filter_append [symmetric] takeWhile_dropWhile_id)
    also have "\<dots> = takeWhile ?N s @ filter ?N rest"
      using t by (simp only: f1 Cons filter.simps if_False if_True not_True_eq_False simp_thms)
    also have "\<dots> = takeWhile ?N s @ filter ?N (dropWhile is_terminator rest)"
      by (simp only: filter_not_dropWhile)
    finally have F: "filter ?N s = takeWhile ?N s @ filter ?N (dropWhile is_terminator rest)" .
    show ?thesis by (simp only: re_split_Cons [OF Cons] concat.simps "1.IH" [OF Cons] F)
  qed
qed

lemma split_ws_tokens:
  "w \<in> set (split_ws s) \<Longrightarrow> w \<noteq> [] \<and> (\<forall>c\<in>set w. \<not> is_space c \<and> c \<in> set s)"
proof (induction s rule: split_ws.induct)
  case 1
  then show ?case by simp
next
  case (2 c cs)
  let ?N = "\<lambda>x. \<not> is_space x"
  show ?case
  proof (cases "is_space c")
    case True
    with "2.prems" have "w \<in> set (split_ws cs)" by simp
    from "2.IH"(1) [OF True this] show ?thesis by auto
  next
    case False
    with "2.prems" consider "w = c # takeWhile ?N cs" | "w \<in> set (split_ws (dropWhile ?N cs))"
      by auto
    then show ?thesis
    proof cases
      case 1
      then show ?thesis using False by (auto dest: set_takeWhileD)
    next
      case 2
      from "2.IH"(2) [OF False this] show ?thesis by (auto dest: set_dropWhileD)
    qed
  qed
qed

lemma split_ws_token_append:
  assumes "w \<noteq> []" and "\<forall>c\<in>set w. \<not> is_space c" and "rest = [] \<or> is_space (hd rest)"
  shows "split_ws (w @ rest) = w # split_ws rest"
proof -
  let ?N = "\<lambda>x. \<not> is_space x"
  from assms(1) obtain c w' where w: "w = c # w'" by (cases w) auto
  have tr: "takeWhile ?N rest = []" using assms(3) by (cases rest) auto
  have dr: "dropWhile ?N rest = rest" using assms(3) by (cases rest) auto
  have "takeWhile ?N (w' @ rest) = w'" using assms(2) w tr by (simp add: takeWhile_append2)
  moreover have "dropWhile ?N (w' @ rest) = rest" using assms(2) w dr by (simp add: dropWhile_append2)
  ultimately show ?thesis using assms(2) w by simp
qed

lemma split_ws_join:
  "\<forall>w\<in>set ws. w \<noteq> [] \<and> (\<forall>c\<in>set w. \<not> is_space c) \<Longrightarrow> split_ws (join_space ws) = ws"
proof (induction ws rule: join_space.induct)
  case 1
  then show ?case by simp
next
  case (2 w)
  then show ?case using split_ws_token_append [of w "[]"] by simp
next
  case (3 w v ws)
  have sp: "is_space CHR '' ''" by (simp add: is_space_def)
  from 3 have "split_ws (join_space (v # ws)) = v # ws" by simp
  moreover have "split_ws (w @ CHR '' '' # join_space (v # ws)) = w # split_ws (CHR '' '' # join_space (v # ws))"
    using 3(2) sp by (intro split_ws_token_append) auto
  ultimately show ?case using sp by simp
qed

lemma join_space_snoc: "join_space (xs @ [w]) @ t = join_space (xs @ [w @ t])"
  by (induction xs rule: join_space.induct) auto

lemma rstrip_punct_split:
  "s = rstrip_punct s @ rev (takeWhile is_trailing_punct (rev s))"
proof -
  have "rev (dropWhile is_trailing_punct (rev s)) @ rev (takeWhile is_trailing_punct (rev s)) =
        rev (takeWhile is_trailing_punct (rev s) @ dropWhile is_trailing_punct (rev s))"
    by (simp only: rev_append)
  also have "\<dots> = s" by (simp only: takeWhile_dropWhile_id rev_rev_ident)
  finally show ?thesis by (simp only: rstrip_punct_def)
qed

lemma rstrip_punct_last:
  "rstrip_punct s \<noteq> [] \<Longrightarrow> \<not> is_trailing_punct (last (rstrip_punct s))"
  using hd_dropWhile [of is_trailing_punct "rev s"] by (simp add: rstrip_punct_def last_rev)

section \<open>Facts about the grouping loop\<close>

lemma group_loop_fold:
  "group_loop S L idx rest d =
     (if rest = [] \<or> idx + length rest \<le> length S
      then Inr (fold (group_step L) (zip rest (drop idx S)) d)
      else Inl IndexError)"
proof (induction rest arbitrary: idx d)
  case Nil
  then show ?case by simp
next
  case (Cons l rest)
  show ?case
  proof (cases "idx < length S")
    case True
    then have "drop idx S = S ! idx # drop (Suc idx) S" by (simp add: Cons_nth_drop_Suc)
    moreover have "dict_append (dict_setdefault d (relabel L l)) (relabel L l) (S ! idx) =
        group_step L (l, S ! idx) d"
      by (simp add: group_step_def)
    ultimately show ?thesis using True Cons by (auto simp: Let_def)
  next
    case False
    then show ?thesis by (simp add: Let_def)
  qed
qed

lemma keys_dict_append: "map fst (dict_append d k s) = map fst d"
  by (induction d) (auto simp: dict_append_def)

lemma keys_group_step:
  "map fst (group_step L p d) =
     (if relabel L (fst p) \<in> set (map fst d) then map fst d else map fst d @ [relabel L (fst p)])"
  by (simp add: group_step_def keys_dict_append dict_setdefault_def)

lemma set_first_seen: "set (first_seen xs) = set xs"
  by (induction xs rule: first_seen.induct) auto

lemma distinct_first_seen: "distinct (first_seen xs)"
  by (induction xs rule: first_seen.induct) (auto simp: set_first_seen)

lemma keys_fold:
  "map fst (fold (group_step L) ps d) =
     map fst d @ first_seen (filter (\<lambda>k. k \<notin> set (map fst d)) (map (\<lambda>p. relabel L (fst p)) ps))"
proof (induction ps arbitrary: d)
  case Nil
  then show ?case by simp
next
  case (Cons p ps)
  let ?r = "relabel L (fst p)"
  show ?case
  proof (cases "?r \<in> set (map fst d)")
    case True
    then have "map fst (group_step L p d) = map fst d" by (simp add: keys_group_step)
    with Cons [of "group_step L p d"] True show ?thesis by simp
  next
    case False
    then have k: "map fst (group_step L p d) = map fst d @ [?r]" by (simp add: keys_group_step)
    have "(\<lambda>k. k \<notin> set (map fst d @ [?r])) = (\<lambda>k. k \<noteq> ?r \<and> k \<notin> set (map fst d))" by auto
    with Cons [of "group_step L p d"] k False show ?thesis by (simp add: conj_commute)
  qed
qed

lemma distinct_keys_fold:
  "distinct (map fst d) \<Longrightarrow> distinct (map fst (fold (group_step L) ps d))"
  by (induction ps arbitrary: d) (auto simp: keys_group_step)

lemma map_of_dict_append:
  "map_of (dict_append d k s) k' =
     (if k' = k then map_option (\<lambda>v. v @ [s]) (map_of d k) else map_of d k')"
  by (induction d) (auto simp: dict_append_def)

lemma map_of_dict_setdefault:
  "map_of (dict_setdefault d k) k' = (if k' = k \<and> map_of d k = None then Some [] else map_of d k')"
proof -
  have none: "\<And>x. x \<notin> fst ` set d \<Longrightarrow> map_of d x = None"
    by (simp add: map_of_eq_None_iff)
  have some: "\<And>x. x \<in> fst ` set d \<Longrightarrow> map_of d x \<noteq> None"
    by (simp add: map_of_eq_None_iff)
  show ?thesis
    using some [of k] by (auto simp: dict_setdefault_def map_add_def none split: option.splits)
qed

lemma cluster_of_step:
  "cluster_of (group_step L p d) k =
     cluster_of d k @ (if k = relabel L (fst p) then [snd p] else [])"
  by (auto simp: cluster_of_def group_step_def map_of_dict_append map_of_dict_setdefault
      split: option.splits)

lemma cluster_of_fold:
  "cluster_of (fold (group_step L) ps d) k =
     cluster_of d k @ map snd (filter (\<lambda>p. relabel L (fst p) = k) ps)"
  by (induction ps arbitrary: d) (auto simp: cluster_of_step)

lemma cluster_of_member:
  "distinct (map fst d) \<Longrightarrow> (k, vs) \<in> set d \<Longrightarrow> cluster_of d k = vs"
  by (simp add: cluster_of_def)

lemma mset_dict_append:
  "distinct (map fst d) \<Longrightarrow> k \<in> set (map fst d) \<Longrightarrow>
   mset (concat (map snd (dict_append d k s))) = mset (concat (map snd d)) + {#s#}"
proof (induction d)
  case Nil
  then show ?case by simp
next
  case (Cons e d)
  obtain k' v where e: "e = (k', v)" by (cases e)
  show ?case
  proof (cases "k' = k")
    case True
    with Cons.prems e have "k \<notin> set (map fst d)" by auto
    then have "dict_append d k s = d" by (induction d) (auto simp: dict_append_def)
    with True e show ?thesis by (simp add: dict_append_def)
  next
    case False
    with Cons e have "mset (concat (map snd (dict_append d k s))) = mset (concat (map snd d)) + {#s#}"
      by auto
    with False e show ?thesis by (simp add: dict_append_def)
  qed
qed

lemma mset_group_step:
  "distinct (map fst d) \<Longrightarrow>
   mset (concat (map snd (group_step L p d))) = mset (concat (map snd d)) + {#snd p#}"
  unfolding group_step_def
  by (subst mset_dict_append) (auto simp: dict_setdefault_def)

lemma mset_fold:
  "distinct (map fst d) \<Longrightarrow>
   mset (concat (map snd (fold (group_step L) ps d))) = mset (concat (map snd d)) + mset (map snd ps)"
proof (induction ps arbitrary: d)
  case Nil
  then show ?case by simp
next
  case (Cons p ps)
  from Cons.prems have "distinct (map fst (group_step L p d))" by (auto simp: keys_group_step)
  from Cons.IH [OF this] Cons.prems show ?case by (simp add: mset_group_step)
qed

lemma zip_filter_indices:
  assumes "length ls = length ss"
  shows "map snd (filter (\<lambda>p. f (fst p) = k) (zip ls ss)) =
         map (\<lambda>i. ss ! i) (filter (\<lambda>i. f (ls ! i) = k) [0..<length ss])"
proof -
  have "zip ls ss = map (\<lambda>i. (ls ! i, ss ! i)) [0..<length ss]"
    using assms by (intro nth_equalityI) auto
  then show ?thesis by (simp add: filter_map comp_def)
qed

section \<open>Cleaning\<close>

text \<open>
  C10. \<open>clean_text\<close> is claimed idempotent, with an output free of whitespace runs. The
  whitespace runs are collapsed before the special characters are deleted, so a deleted
  character between two spaces leaves the two spaces side by side: on \<open>a @ b\<close> the
  output is \<open>a\<close>, two spaces, \<open>b\<close>; it contains a whitespace run, and cleaning it again
  gives a different string.
\<close>

theorem clean_text_leaves_space_run:
  "clean_text ''a @ b'' = ''a  b'' \<and>
   has_space_run (clean_text ''a @ b'') \<and>
   clean_text (clean_text ''a @ b'') = ''a b'' \<and>
   clean_text (clean_text ''a @ b'') \<noteq> clean_text ''a @ b''"
  by code_simp

section \<open>Title shortening\<close>

text \<open>
  C5. With the default limit of 6 words, \<open>_shorten_sentence\<close> returns a sentence of at
  most 6 whitespace-delimited tokens with its trailing characters from \<open>. , ! ?\<close>
  stripped: the result is the sentence without a suffix made of those characters only, and
  it does not end with one of them. A sentence of more than 6 tokens gives its first 6
  tokens joined by single spaces and followed by \<open>...\<close>, which reads back as exactly 6
  tokens, the last one carrying the ellipsis.
\<close>

theorem shorten_sentence_default:
  "(length (split_ws s) \<le> 6 \<longrightarrow>
      shorten_sentence s 6 = rstrip_punct s \<and>
      (\<exists>suffix. s = shorten_sentence s 6 @ suffix \<and> (\<forall>c\<in>set suffix. is_trailing_punct c)) \<and>
      (shorten_sentence s 6 \<noteq> [] \<longrightarrow> \<not> is_trailing_punct (last (shorten_sentence s 6)))) \<and>
   (6 < length (split_ws s) \<longrightarrow>
      shorten_sentence s 6 = join_space (take 6 (split_ws s)) @ ''...'' \<and>
      split_ws (shorten_sentence s 6) = take 5 (split_ws s) @ [split_ws s ! 5 @ ''...''])"
proof (intro conjI impI)
  assume le: "length (split_ws s) \<le> 6"
  then show eq: "shorten_sentence s 6 = rstrip_punct s"
    by (simp add: shorten_sentence_def)
  have "\<forall>c\<in>set (rev (takeWhile is_trailing_punct (rev s))). is_trailing_punct c"
    by (auto dest: set_takeWhileD)
  with rstrip_punct_split [of s] eq
  show "\<exists>suffix. s = shorten_sentence s 6 @ suffix \<and> (\<forall>c\<in>set suffix. is_trailing_punct c)"
    by metis
  assume "shorten_sentence s 6 \<noteq> []"
  with eq show "\<not> is_trailing_punct (last (shorten_sentence s 6))"
    by (simp add: rstrip_punct_last)
next
  let ?ws = "split_ws s"
  assume gt: "6 < length ?ws"
  then show eq: "shorten_sentence s 6 = join_space (take 6 ?ws) @ ''...''"
    by (simp add: shorten_sentence_def py_take_def)
  have "take (Suc 5) ?ws = take 5 ?ws @ [?ws ! 5]"
    using gt by (intro take_Suc_conv_app_nth) simp
  then have t6: "take 6 ?ws = take 5 ?ws @ [?ws ! 5]" by simp
  have "?ws ! 5 \<in> set ?ws" using gt by simp
  then have last_ok: "?ws ! 5 \<noteq> [] \<and> (\<forall>c\<in>set (?ws ! 5). \<not> is_space c)"
    using split_ws_tokens by blast
  have dot: "\<not> is_space CHR ''.''" by (simp add: is_space_def)
  have "\<forall>w\<in>set (take 5 ?ws @ [?ws ! 5 @ ''...'']). w \<noteq> [] \<and> (\<forall>c\<in>set w. \<not> is_space c)"
  proof
    fix w assume "w \<in> set (take 5 ?ws @ [?ws ! 5 @ ''...''])"
    then consider "w \<in> set (take 5 ?ws)" | "w = ?ws ! 5 @ ''...''" by auto
    then show "w \<noteq> [] \<and> (\<forall>c\<in>set w. \<not> is_space c)"
    proof cases
      case 1
      then have "w \<in> set ?ws" by (rule in_set_takeD)
      then show ?thesis using split_ws_tokens by blast
    next
      case 2
      then show ?thesis using last_ok dot by auto
    qed
  qed
  then have "split_ws (join_space (take 5 ?ws @ [?ws ! 5 @ ''...''])) = take 5 ?ws @ [?ws ! 5 @ ''...'']"
    by (rule split_ws_join)
  then show "split_ws (shorten_sentence s 6) = take 5 ?ws @ [?ws ! 5 @ ''...'']"
    by (simp only: eq t6 join_space_snoc)
qed

theorem shorten_sentence_default_witness:
  "length (split_ws ''Costs also grew.,'') \<le> 6 \<and>
   shorten_sentence ''Costs also grew.,'' 6 = ''Costs also grew'' \<and>
   6 < length (split_ws ''one two three  four five six seven eight.'') \<and>
   shorten_sentence ''one two three  four five six seven eight.'' 6 = ''one two three four five six...'' \<and>
   split_ws (shorten_sentence ''one two three  four five six seven eight.'' 6) =
     [''one'', ''two'', ''three'', ''four'', ''five'', ''six...'']"
proof -
  have a: "length (split_ws ''Costs also grew.,'') \<le> 6" by code_simp
  have b: "rstrip_punct ''Costs also grew.,'' = ''Costs also grew''" by code_simp
  have c: "6 < length (split_ws ''one two three  four five six seven eight.'')" by code_simp
  have d: "join_space (take 6 (split_ws ''one two three  four five six seven eight.'')) @ ''...'' =
           ''one two three four five six...''" by code_simp
  have e: "take 5 (split_ws ''one two three  four five six seven eight.'') @
             [split_ws ''one two three  four five six seven eight.'' ! 5 @ ''...''] =
           [''one'', ''two'', ''three'', ''four'', ''five'', ''six...'']" by code_simp
  let ?A = "''Costs also grew.,''" and ?B = "''one two three  four five six seven eight.''"
  from shorten_sentence_default [of ?A] a have "shorten_sentence ?A 6 = rstrip_punct ?A"
    by blast
  with b have A: "shorten_sentence ?A 6 = ''Costs also grew''" by (simp only:)
  from shorten_sentence_default [of ?B] c
  have "shorten_sentence ?B 6 = join_space (take 6 (split_ws ?B)) @ ''...''"
    and "split_ws (shorten_sentence ?B 6) = take 5 (split_ws ?B) @ [split_ws ?B ! 5 @ ''...'']"
    by blast+
  with d e have B: "shorten_sentence ?B 6 = ''one two three four five six...''"
    "split_ws (shorten_sentence ?B 6) = [''one'', ''two'', ''three'', ''four'', ''five'', ''six...'']"
    by (simp_all only:)
  from a A c B show ?thesis by blast
qed

section \<open>Segmentation\<close>

text \<open>
  C6. The segmenter is \<open>split_sentences\<close> after \<open>clean_text\<close>. Cleaning replaces every
  whitespace run by one space (no run is left by that step, and the space is the only
  whitespace character that remains), deletes every character outside the word
  characters, whitespace and \<open>. , ! ? -\<close>, and trims. The sentences are the pieces
  between the runs of \<open>. ! ?\<close> (they hold the text's other characters in order, and no
  terminator), trimmed, with the empty ones and those of fewer than 3 tokens dropped, in
  their order in the text. Every sentence returned has at least 3 tokens, and
  \<open>Hi there.\<close> gives no sentence.
\<close>

theorem segmenter_steps:
  "clean_text t = strip (filter is_kept (collapse_whitespace t)) \<and>
   \<not> has_space_run (collapse_whitespace t) \<and>
   (\<forall>c\<in>set (collapse_whitespace t). is_space c \<longrightarrow> c = CHR '' '') \<and>
   (\<forall>c\<in>set (clean_text t).
      is_word c \<or> c = CHR '' '' \<or> c = CHR ''.'' \<or> c = CHR '','' \<or> c = CHR ''!'' \<or>
      c = CHR ''?'' \<or> c = CHR ''-'') \<and>
   concat (re_split_terminators (clean_text t)) = filter (\<lambda>c. \<not> is_terminator c) (clean_text t) \<and>
   (\<forall>p\<in>set (re_split_terminators (clean_text t)). \<forall>c\<in>set p. \<not> is_terminator c) \<and>
   split_sentences (clean_text t) =
     filter (\<lambda>s. 3 \<le> length (split_ws s))
       (filter (\<lambda>s. s \<noteq> []) (map strip (re_split_terminators (clean_text t)))) \<and>
   (\<forall>s\<in>set (split_sentences (clean_text t)). 3 \<le> length (split_ws s) \<and> strip s = s) \<and>
   split_sentences (clean_text ''Hi there.'') = []"
proof (intro conjI)
  show "clean_text t = strip (filter is_kept (collapse_whitespace t))"
    by (simp add: clean_text_def remove_special_def)
  show "\<not> has_space_run (collapse_whitespace t)"
    by (rule collapse_no_run)
  show "\<forall>c\<in>set (collapse_whitespace t). is_space c \<longrightarrow> c = CHR '' ''"
    using collapse_spaces by blast
  show "\<forall>c\<in>set (clean_text t).
      is_word c \<or> c = CHR '' '' \<or> c = CHR ''.'' \<or> c = CHR '','' \<or> c = CHR ''!'' \<or>
      c = CHR ''?'' \<or> c = CHR ''-''"
    using clean_text_chars [of _ t] by (auto simp: is_kept_def)
  show "concat (re_split_terminators (clean_text t)) = filter (\<lambda>c. \<not> is_terminator c) (clean_text t)"
    by (rule re_split_concat)
  show "\<forall>p\<in>set (re_split_terminators (clean_text t)). \<forall>c\<in>set p. \<not> is_terminator c"
    using re_split_pieces by blast
  show eq: "split_sentences (clean_text t) =
     filter (\<lambda>s. 3 \<le> length (split_ws s))
       (filter (\<lambda>s. s \<noteq> []) (map strip (re_split_terminators (clean_text t))))"
    by (simp add: split_sentences_def filter_map comp_def)
  show "\<forall>s\<in>set (split_sentences (clean_text t)). 3 \<le> length (split_ws s) \<and> strip s = s"
    by (auto simp: eq strip_idem)
  show "split_sentences (clean_text ''Hi there.'') = []"
    by code_simp
qed

theorem segmenter_steps_witness:
  "split_sentences (clean_text ''Revenue  grew #sharply. Costs also grew!? Ok then. Profit margins held'') =
     [''Revenue grew sharply'', ''Costs also grew'', ''Profit margins held''] \<and>
   3 \<le> length (split_ws ''Costs also grew'') \<and> strip ''Costs also grew'' = ''Costs also grew''"
proof -
  let ?T = "''Revenue  grew #sharply. Costs also grew!? Ok then. Profit margins held''"
  have a: "split_sentences (clean_text ?T) =
     [''Revenue grew sharply'', ''Costs also grew'', ''Profit margins held'']"
    by code_simp
  have m: "''Costs also grew'' \<in> set (split_sentences (clean_text ?T))"
    by (subst a) simp
  from segmenter_steps [of ?T]
  have "\<forall>s\<in>set (split_sentences (clean_text ?T)). 3 \<le> length (split_ws s) \<and> strip s = s"
    by blast
  from bspec [OF this m] a show ?thesis by blast
qed

lemma group_loop_result:
  assumes "length labels = length sentences"
  shows "\<exists>clusters. group_loop sentences labels 0 labels [] = Inr clusters \<and>
     map fst clusters = first_seen (map (relabel labels) labels) \<and>
     distinct (map fst clusters) \<and>
     (\<forall>k. cluster_of clusters k =
        map (\<lambda>i. sentences ! i) (filter (\<lambda>i. relabel labels (labels ! i) = k) [0..<length sentences])) \<and>
     mset (concat (map snd clusters)) = mset sentences"
proof -
  let ?c = "fold (group_step labels) (zip labels sentences) []"
  have "group_loop sentences labels 0 labels [] = Inr ?c"
    using assms by (simp add: group_loop_fold)
  moreover have "map fst ?c = first_seen (map (relabel labels) labels)"
  proof -
    have "map (\<lambda>p. relabel labels (fst p)) (zip labels sentences) =
          map (relabel labels) (map fst (zip labels sentences))"
      by (simp only: map_map comp_def)
    also have "\<dots> = map (relabel labels) labels" using assms by simp
    finally show ?thesis by (simp add: keys_fold)
  qed
  moreover have "distinct (map fst ?c)"
    by (rule distinct_keys_fold) simp
  moreover have "cluster_of ?c k =
      map (\<lambda>i. sentences ! i) (filter (\<lambda>i. relabel labels (labels ! i) = k) [0..<length sentences])" for k
  proof -
    have "cluster_of [] k = []" by (simp add: cluster_of_def)
    with zip_filter_indices [OF assms, of "relabel labels" k] show ?thesis
      by (simp add: cluster_of_fold)
  qed
  moreover have "mset (concat (map snd ?c)) = mset sentences"
    using assms mset_fold [of "[]" labels "zip labels sentences"] by simp
  ultimately show ?thesis by blast
qed

section \<open>Clustering\<close>

text \<open>
  C7. With fewer than 2 sentences \<open>cluster_sentences\<close> returns the single cluster 0 holding
  its input, whatever the clusterer would do (also one that raises): no clusterer is
  called. From 2 sentences on, when \<open>hdbscan\<close> is not available, the labels come from
  \<open>KMeans\<close> with \<open>random_state=42\<close>, \<open>n_init=10\<close> and \<open>k = min(n_clusters, n)\<close>, where
  \<open>n_clusters\<close> is the caller's count or, when none is given,
  \<open>min(MAX_TOPICS, max(2, n // 5))\<close> with \<open>MAX_TOPICS = 10\<close>.
\<close>

theorem cluster_count_policy:
  "(length sentences < 2 \<longrightarrow>
      cluster_sentences env sentences embeddings n_clusters = Inr [(0, sentences)]) \<and>
   (2 \<le> length sentences \<longrightarrow> \<not> hdbscan_available env \<longrightarrow>
      cluster_sentences env sentences embeddings None =
        bind (fit_predict env
               (KMeans (min (min 10 (max 2 (int (length sentences) div 5))) (int (length sentences))) 42 10)
               embeddings)
          (\<lambda>labels. group_loop sentences labels 0 labels []) \<and>
      cluster_sentences env sentences embeddings (Some k) =
        bind (fit_predict env (KMeans (min k (int (length sentences))) 42 10) embeddings)
          (\<lambda>labels. group_loop sentences labels 0 labels [])) \<and>
   MAX_TOPICS = 10"
  by (simp add: cluster_sentences_def MAX_TOPICS_def Let_def)

theorem cluster_count_policy_witness:
  "cluster_sentences failing_backend [''Revenue grew sharply''] [20] None =
     Inr [(0, [''Revenue grew sharply''])] \<and>
   cluster_sentences kmeans_backend (replicate 16 ''a b c'') (replicate 16 5) None =
     bind (fit_predict kmeans_backend (KMeans 3 42 10) (replicate 16 5))
       (\<lambda>labels. group_loop (replicate 16 ''a b c'') labels 0 labels [])"
proof -
  have a: "length [''Revenue grew sharply''] < 2" by simp
  have b: "2 \<le> length (replicate 16 ''a b c'')" by simp
  have c: "\<not> hdbscan_available kmeans_backend" by (simp add: kmeans_backend_def demo_backend_def)
  have d: "min (min 10 (max 2 (int (length (replicate 16 ''a b c'')) div 5)))
             (int (length (replicate 16 ''a b c''))) = 3" by simp
  from cluster_count_policy [of "[''Revenue grew sharply'']" failing_backend "[20]" None] a
  have A: "cluster_sentences failing_backend [''Revenue grew sharply''] [20] None =
     Inr [(0, [''Revenue grew sharply''])]" by blast
  from cluster_count_policy [of "replicate 16 ''a b c''" kmeans_backend "replicate 16 5"] b c
  have "cluster_sentences kmeans_backend (replicate 16 ''a b c'') (replicate 16 5) None =
        bind (fit_predict kmeans_backend
               (KMeans (min (min 10 (max 2 (int (length (replicate 16 ''a b c'')) div 5)))
                          (int (length (replicate 16 ''a b c'')))) 42 10)
               (replicate 16 5))
          (\<lambda>labels. group_loop (replicate 16 ''a b c'') labels 0 labels [])"
    by blast
  then have B: "cluster_sentences kmeans_backend (replicate 16 ''a b c'') (replicate 16 5) None =
     bind (fit_predict kmeans_backend (KMeans 3 42 10) (replicate 16 5))
       (\<lambda>labels. group_loop (replicate 16 ''a b c'') labels 0 labels [])"
    by (simp only: d)
  from A B show ?thesis by blast
qed

text \<open>
  C8. Under HDBSCAN, when the clusterer returns one label per sentence, grouping returns
  a dict with distinct keys in which every sentence sits under its label, a sentence
  labelled \<open>-1\<close> under the key \<open>max(labels) + 1\<close>. That key is no label of the clusterer,
  its cluster holds exactly the sentences labelled \<open>-1\<close>, in their order, and the clusters
  together hold every sentence once.
\<close>

theorem noise_sentences_kept:
  assumes "2 \<le> length sentences" and "hdbscan_available env"
    and "fit_predict env (HDBSCAN MIN_CLUSTER_SIZE ''euclidean'') embeddings = Inr labels"
    and "length labels = length sentences"
  shows "\<exists>clusters. cluster_sentences env sentences embeddings n_clusters = Inr clusters \<and>
      distinct (map fst clusters) \<and>
      (\<forall>i<length sentences. \<exists>vs. (relabel labels (labels ! i), vs) \<in> set clusters \<and> sentences ! i \<in> set vs) \<and>
      (\<forall>i<length sentences. labels ! i = - 1 \<longrightarrow>
          (\<exists>vs. (Max (set labels) + 1, vs) \<in> set clusters \<and> sentences ! i \<in> set vs)) \<and>
      Max (set labels) + 1 \<notin> set labels \<and>
      (\<forall>vs. (Max (set labels) + 1, vs) \<in> set clusters \<longrightarrow>
          vs = map (\<lambda>i. sentences ! i) (filter (\<lambda>i. labels ! i = - 1) [0..<length sentences])) \<and>
      mset (concat (map snd clusters)) = mset sentences"
proof -
  let ?n = "length sentences"
  let ?r = "relabel labels"
  from group_loop_result [OF assms(4)] obtain clusters where
    run: "group_loop sentences labels 0 labels [] = Inr clusters" and
    keys: "map fst clusters = first_seen (map ?r labels)" and
    dist: "distinct (map fst clusters)" and
    mem: "\<And>k. cluster_of clusters k = map (\<lambda>i. sentences ! i) (filter (\<lambda>i. ?r (labels ! i) = k) [0..<?n])" and
    all: "mset (concat (map snd clusters)) = mset sentences"
    by blast
  have res: "cluster_sentences env sentences embeddings n_clusters = Inr clusters"
    using assms(1-3) run by (simp add: cluster_sentences_def CLUSTERING_METHOD_def Let_def bind_def)
  have fresh: "Max (set labels) + 1 \<notin> set labels"
  proof
    assume "Max (set labels) + 1 \<in> set labels"
    then have "Max (set labels) + 1 \<le> Max (set labels)" by (intro Max_ge) auto
    then show False by simp
  qed
  have noise: "?r l = Max (set labels) + 1 \<longleftrightarrow> l = - 1" if "l \<in> set labels" for l
    using that fresh by (auto simp: relabel_def)
  have placed: "\<exists>vs. (?r (labels ! i), vs) \<in> set clusters \<and> sentences ! i \<in> set vs" if i: "i < ?n" for i
  proof -
    from i assms(4) have "?r (labels ! i) \<in> set (map fst clusters)"
      by (simp add: keys set_first_seen)
    then obtain vs where vs: "(?r (labels ! i), vs) \<in> set clusters" by auto
    with dist have "vs = cluster_of clusters (?r (labels ! i))" by (simp add: cluster_of_member)
    with mem i have "sentences ! i \<in> set vs" by simp
    with vs show ?thesis by blast
  qed
  have extra: "vs = map (\<lambda>i. sentences ! i) (filter (\<lambda>i. labels ! i = - 1) [0..<?n])"
    if "(Max (set labels) + 1, vs) \<in> set clusters" for vs
  proof -
    from that dist have "vs = cluster_of clusters (Max (set labels) + 1)"
      by (simp add: cluster_of_member)
    moreover have "filter (\<lambda>i. ?r (labels ! i) = Max (set labels) + 1) [0..<?n] =
                   filter (\<lambda>i. labels ! i = - 1) [0..<?n]"
      using assms(4) noise by (intro filter_cong) auto
    ultimately show ?thesis by (simp add: mem)
  qed
  have "\<forall>i<?n. labels ! i = - 1 \<longrightarrow> (\<exists>vs. (Max (set labels) + 1, vs) \<in> set clusters \<and> sentences ! i \<in> set vs)"
  proof (intro allI impI)
    fix i assume "i < ?n" and "labels ! i = - 1"
    with placed [of i] show "\<exists>vs. (Max (set labels) + 1, vs) \<in> set clusters \<and> sentences ! i \<in> set vs"
      by (simp add: relabel_def)
  qed
  with res dist placed fresh extra all show ?thesis by blast
qed

theorem noise_sentences_kept_witness:
  "cluster_sentences demo_backend [''aa bb cc'', ''a b c'', ''dd ee ff'', ''d e f''] [8, 5, 8, 5] None =
     Inr [(1, [''aa bb cc'', ''dd ee ff'']), (0, [''a b c'', ''d e f''])] \<and>
   Max (set [- 1, 0, - 1, 0 :: int]) + 1 \<notin> set [- 1, 0, - 1, 0 :: int]"
proof -
  let ?S = "[''aa bb cc'', ''a b c'', ''dd ee ff'', ''d e f'']"
  have a: "2 \<le> length ?S" by simp
  have b: "hdbscan_available demo_backend" by (simp add: demo_backend_def)
  have c: "fit_predict demo_backend (HDBSCAN MIN_CLUSTER_SIZE ''euclidean'') [8, 5, 8, 5] = Inr [- 1, 0, - 1, 0]"
    by (simp add: demo_backend_def)
  have d: "length [- 1, 0, - 1, 0 :: int] = length ?S" by simp
  have e: "cluster_sentences demo_backend ?S [8, 5, 8, 5] None =
     Inr [(1, [''aa bb cc'', ''dd ee ff'']), (0, [''a b c'', ''d e f''])]"
    by code_simp
  from noise_sentences_kept [OF a b c d, of None] e show ?thesis by blast
qed

section \<open>Facts about titles and bullets\<close>

lemma lookup_all_eq:
  "lookup_all xs is =
     (if \<forall>i\<in>set is. i < length xs then Inr (map (\<lambda>i. xs ! i) is) else Inl IndexError)"
  by (induction "is") (simp_all add: bind_def)

lemma length_takeWhile_less:
  "\<exists>x\<in>set xs. \<not> P x \<Longrightarrow> length (takeWhile P xs) < length xs"
proof (induction xs)
  case Nil
  then show ?case by simp
next
  case (Cons a xs)
  show ?case
  proof (cases "P a")
    case True
    with Cons.prems have "\<exists>x\<in>set xs. \<not> P x" by auto
    from Cons.IH [OF this] True show ?thesis by simp
  next
    case False
    then show ?thesis by simp
  qed
qed

lemma argmax_in_range:
  assumes "xs \<noteq> []"
  shows "\<exists>i. argmax xs = Inr i \<and> i < length xs \<and> xs ! i = Max (set xs) \<and> (\<forall>j<i. xs ! j \<noteq> Max (set xs))"
proof -
  let ?P = "\<lambda>x. x \<noteq> Max (set xs)"
  let ?i = "length (takeWhile ?P xs)"
  from assms have "Max (set xs) \<in> set xs" by (intro Max_in) auto
  then have "\<exists>x\<in>set xs. \<not> ?P x" by blast
  then have lt: "?i < length xs" by (rule length_takeWhile_less)
  have "\<not> ?P (xs ! ?i)" using nth_length_takeWhile [of ?P xs, OF lt] by simp
  moreover have "?P (xs ! j)" if "j < ?i" for j
  proof -
    from that have "takeWhile ?P xs ! j = xs ! j" by (rule takeWhile_nth)
    moreover from that have "takeWhile ?P xs ! j \<in> set (takeWhile ?P xs)" by (rule nth_mem)
    ultimately show ?thesis using set_takeWhileD [of "xs ! j" ?P xs] by simp
  qed
  ultimately show ?thesis using assms lt by (simp add: argmax_def)
qed

lemma py_drop_last:
  "0 < m \<Longrightarrow> py_drop (- m) xs = drop (length xs - nat m) xs"
  unfolding py_drop_def by (simp add: nat_diff_distrib')

section \<open>Bullets\<close>

text \<open>
  C4. For a cluster with one similarity score per sentence, an \<open>argsort\<close> that returns the
  indices in ascending order of score, and \<open>max_bullets\<close> at least 1: \<open>rank_bullets\<close>
  returns at most \<open>max_bullets\<close> sentences; a cluster of at most \<open>max_bullets\<close> sentences
  is returned as it is; of a larger one exactly \<open>max_bullets\<close> sentences are returned, at
  distinct positions of the cluster, in descending order of score, and no sentence left
  out scores higher than a returned one.
\<close>

theorem rank_bullets_top:
  assumes "0 < max_bullets"
    and "centroid_similarity env embeddings = Inr scores"
    and "length scores = length sentences"
    and "mset (argsort env scores) = mset [0..<length scores]"
    and "sorted (map (\<lambda>i. scores ! i) (argsort env scores))"
  shows "\<exists>bs. rank_bullets env sentences embeddings max_bullets = Inr bs \<and>
      int (length bs) \<le> max_bullets \<and>
      (int (length sentences) \<le> max_bullets \<longrightarrow> bs = sentences) \<and>
      (max_bullets < int (length sentences) \<longrightarrow>
         (\<exists>idx. bs = map (\<lambda>i. sentences ! i) idx \<and> int (length idx) = max_bullets \<and>
                distinct idx \<and> (\<forall>i\<in>set idx. i < length sentences) \<and>
                sorted (rev (map (\<lambda>i. scores ! i) idx)) \<and>
                (\<forall>j<length sentences. j \<notin> set idx \<longrightarrow> (\<forall>i\<in>set idx. scores ! j \<le> scores ! i))))"
proof (cases "int (length sentences) \<le> max_bullets")
  case True
  then show ?thesis by (simp add: rank_bullets_def)
next
  case False
  let ?n = "length sentences"
  let ?order = "argsort env scores"
  let ?k = "?n - nat max_bullets"
  let ?idx = "rev (drop ?k ?order)"
  let ?f = "\<lambda>i. scores ! i"
  have len: "length ?order = ?n"
    using mset_eq_length [OF assms(4)] assms(3) by simp
  have set_order: "set ?order = {0..<?n}"
    using mset_eq_setD [OF assms(4)] assms(3) by simp
  have dist: "distinct ?order"
    using mset_eq_imp_distinct_iff [OF assms(4)] by simp
  have top: "rev (py_drop (- max_bullets) ?order) = ?idx"
    using assms(1) len by (simp add: py_drop_last)
  have inr: "\<forall>i\<in>set ?idx. i < ?n"
    using set_order by (auto dest: in_set_dropD)
  then have res: "rank_bullets env sentences embeddings max_bullets = Inr (map (\<lambda>i. sentences ! i) ?idx)"
    using False assms(2) top by (simp add: rank_bullets_def bind_def lookup_all_eq Let_def)
  have l: "int (length ?idx) = max_bullets"
    using False assms(1) len by simp
  have d: "distinct ?idx" using dist by simp
  have "sorted (drop ?k (map ?f ?order))" using assms(5) by (rule sorted_wrt_drop)
  then have s: "sorted (rev (map ?f ?idx))" by (simp add: rev_map drop_map)
  have out: "\<forall>j<?n. j \<notin> set ?idx \<longrightarrow> (\<forall>i\<in>set ?idx. ?f j \<le> ?f i)"
  proof (intro allI impI ballI)
    fix j i assume j: "j < ?n" and nj: "j \<notin> set ?idx" and i: "i \<in> set ?idx"
    have "map ?f ?order = map ?f (take ?k ?order) @ map ?f (drop ?k ?order)"
      by (simp only: map_append [symmetric] append_take_drop_id)
    with assms(5) have sp: "sorted (map ?f (take ?k ?order) @ map ?f (drop ?k ?order))"
      by (simp only:)
    have "set ?order = set (take ?k ?order) \<union> set (drop ?k ?order)"
      by (simp only: set_append [symmetric] append_take_drop_id)
    with j set_order nj have "j \<in> set (take ?k ?order)" by auto
    moreover from i have "i \<in> set (drop ?k ?order)" by simp
    ultimately show "?f j \<le> ?f i" using sp by (simp add: sorted_append)
  qed
  have "\<exists>idx. map (\<lambda>i. sentences ! i) ?idx = map (\<lambda>i. sentences ! i) idx \<and>
          int (length idx) = max_bullets \<and> distinct idx \<and> (\<forall>i\<in>set idx. i < ?n) \<and>
          sorted (rev (map ?f idx)) \<and>
          (\<forall>j<?n. j \<notin> set idx \<longrightarrow> (\<forall>i\<in>set idx. ?f j \<le> ?f i))"
    using l d inr s out by (intro exI [of _ ?idx] conjI) (rule refl)
  moreover have "int (length (map (\<lambda>i. sentences ! i) ?idx)) \<le> max_bullets"
    using l by simp
  ultimately show ?thesis using res False by blast
qed

theorem rank_bullets_top_witness:
  "rank_bullets demo_backend [''a b c'', ''dd ee ff gg'', ''hh ii jj''] [5, 11, 8] 2 =
     Inr [''dd ee ff gg'', ''hh ii jj''] \<and>
   int (length [''dd ee ff gg'', ''hh ii jj'']) \<le> 2"
proof -
  let ?S = "[''a b c'', ''dd ee ff gg'', ''hh ii jj'']"
  have a: "0 < (2::int)" by simp
  have b: "centroid_similarity demo_backend [5, 11, 8] = Inr [5, 11, 8]"
    by (simp add: demo_backend_def)
  have c: "length [5, 11, 8 :: nat] = length ?S" by simp
  have o: "argsort demo_backend [5, 11, 8] = [0, 2, 1]" by code_simp
  have u: "[0..<length [5, 11, 8 :: nat]] = [0, 1, 2]" by code_simp
  have d: "mset (argsort demo_backend [5, 11, 8]) = mset [0..<length [5, 11, 8 :: nat]]"
    by (simp only: o u) simp
  have e: "sorted (map (\<lambda>i. [5, 11, 8 :: nat] ! i) (argsort demo_backend [5, 11, 8]))"
    by (simp only: o) simp
  have f: "rank_bullets demo_backend ?S [5, 11, 8] 2 = Inr [''dd ee ff gg'', ''hh ii jj'']"
    by code_simp
  from rank_bullets_top [OF a b c d e] f show ?thesis by auto
qed

text \<open>
  As the claim is stated, for every \<open>max_bullets\<close>, it fails at \<open>max_bullets = 0\<close>: the
  slice \<open>[-0:]\<close> is the whole array, so both sentences of a cluster of two come back.
\<close>

theorem rank_bullets_zero_counterexample:
  "rank_bullets demo_backend [''a b c'', ''d e f g''] [5, 7] 0 = Inr [''d e f g'', ''a b c''] \<and>
   \<not> int (length [''d e f g'', ''a b c'']) \<le> 0"
  by code_simp

section \<open>Facts about the pipeline\<close>

lemma build_topics_Inr:
  "build_topics env S E clusters = Inr ts \<Longrightarrow> (cid, cs) \<in> set clusters \<Longrightarrow>
   \<exists>ce t bs. lookup_all E (filter (\<lambda>i. S ! i \<in> set cs) [0..<length S]) = Inr ce \<and>
      generate_topic_title env cs ce = Inr t \<and>
      rank_bullets env cs ce MAX_BULLETS_PER_SLIDE = Inr bs"
proof (induction clusters arbitrary: ts)
  case Nil
  then show ?case by simp
next
  case (Cons c clusters)
  obtain cid' cs' where c: "c = (cid', cs')" by (cases c)
  from Cons.prems(1) c obtain ce t bs ts' where
    h: "lookup_all E (filter (\<lambda>i. S ! i \<in> set cs') [0..<length S]) = Inr ce"
       "generate_topic_title env cs' ce = Inr t"
       "rank_bullets env cs' ce MAX_BULLETS_PER_SLIDE = Inr bs"
       "build_topics env S E clusters = Inr ts'"
    by (auto simp: bind_def Let_def split: sum.splits)
  from Cons.prems(2) c consider "(cid, cs) = (cid', cs')" | "(cid, cs) \<in> set clusters" by auto
  then show ?case
  proof cases
    case 1
    with h show ?thesis by auto
  next
    case 2
    from Cons.IH [OF h(4) 2] show ?thesis .
  qed
qed

lemma build_topics_shape:
  "build_topics env S E clusters = Inr ts \<Longrightarrow>
   map topic_id ts = map fst clusters \<and> map sentence_count ts = map (\<lambda>c. length (snd c)) clusters"
proof (induction clusters arbitrary: ts)
  case Nil
  then show ?case by simp
next
  case (Cons c clusters)
  obtain cid cs where c: "c = (cid, cs)" by (cases c)
  from Cons.prems c obtain t bs ts' where
    h: "build_topics env S E clusters = Inr ts'"
       "ts = \<lparr>topic_id = cid, title = t, bullets = bs, sentence_count = length cs\<rparr> # ts'"
    by (auto simp: bind_def Let_def split: sum.splits)
  from Cons.IH [OF h(1)] h(2) c show ?case by simp
qed

lemma process_text_Inr:
  assumes "process_text env text = Inr r" and "split_sentences (clean_text text) \<noteq> []"
  shows "\<exists>E clusters ts.
      generate_embeddings env (split_sentences (clean_text text)) = Inr E \<and>
      cluster_sentences env (split_sentences (clean_text text)) E None = Inr clusters \<and>
      build_topics env (split_sentences (clean_text text)) E clusters = Inr ts \<and>
      r = \<lparr>topics = sort_reverse (\<lambda>t. sentence_count t) ts,
           slide_count = length ts + 2,
           total_sentences = length (split_sentences (clean_text text))\<rparr>"
  using assms
  by (auto simp: process_text_def bind_def Let_def sort_reverse_def split: sum.splits)

section \<open>Synthesis on malformed clusters\<close>

text \<open>
  C9. A malformed cluster is claimed to make title and bullet synthesis fail. The
  code returns instead of failing in these cases: an empty cluster has the title
  \<open>Topic\<close> and no bullets; a cluster of one sentence has that sentence, shortened, as its
  title, and a cluster of at most \<open>max_bullets\<close> sentences has its sentences as
  bullets, whatever the embeddings are. Beyond these sizes synthesis fails exactly when
  the similarity computation raises or a selected index (the \<open>argmax\<close>, one of the top
  indices) is not a position of the sentence list. \<open>build_topics\<close> returns only if
  synthesis returned for every cluster, and so does \<open>process_text\<close>.
\<close>

theorem synthesis_failure_cases:
  "generate_topic_title env [] embeddings = Inr ''Topic'' \<and>
   rank_bullets env [] embeddings MAX_BULLETS_PER_SLIDE = Inr [] \<and>
   (length sentences = 1 \<longrightarrow>
      generate_topic_title env sentences embeddings = Inr (shorten_sentence (hd sentences) 6)) \<and>
   (int (length sentences) \<le> max_bullets \<longrightarrow>
      rank_bullets env sentences embeddings max_bullets = Inr sentences) \<and>
   (2 \<le> length sentences \<longrightarrow>
      ((\<exists>e. generate_topic_title env sentences embeddings = Inl e) \<longleftrightarrow>
       (case centroid_similarity env embeddings of
          Inl e \<Rightarrow> True
        | Inr sims \<Rightarrow> sims = [] \<or> length sentences \<le> length (takeWhile (\<lambda>x. x \<noteq> Max (set sims)) sims)))) \<and>
   (max_bullets < int (length sentences) \<longrightarrow>
      ((\<exists>e. rank_bullets env sentences embeddings max_bullets = Inl e) \<longleftrightarrow>
       (case centroid_similarity env embeddings of
          Inl e \<Rightarrow> True
        | Inr scores \<Rightarrow> \<exists>i\<in>set (py_drop (- max_bullets) (argsort env scores)). length sentences \<le> i))) \<and>
   (\<forall>ts. build_topics env S E clusters = Inr ts \<longrightarrow>
      (\<forall>c\<in>set clusters. \<exists>ce t bs.
          lookup_all E (filter (\<lambda>i. S ! i \<in> set (snd c)) [0..<length S]) = Inr ce \<and>
          generate_topic_title env (snd c) ce = Inr t \<and>
          rank_bullets env (snd c) ce MAX_BULLETS_PER_SLIDE = Inr bs)) \<and>
   (\<forall>r. process_text env text = Inr r \<longrightarrow> split_sentences (clean_text text) \<noteq> [] \<longrightarrow>
      (\<exists>E' clusters' ts.
          cluster_sentences env (split_sentences (clean_text text)) E' None = Inr clusters' \<and>
          build_topics env (split_sentences (clean_text text)) E' clusters' = Inr ts))"
proof (intro conjI)
  show "generate_topic_title env [] embeddings = Inr ''Topic''"
    by (simp add: generate_topic_title_def)
  show "rank_bullets env [] embeddings MAX_BULLETS_PER_SLIDE = Inr []"
    by (simp add: rank_bullets_def MAX_BULLETS_PER_SLIDE_def)
  show "length sentences = 1 \<longrightarrow>
      generate_topic_title env sentences embeddings = Inr (shorten_sentence (hd sentences) 6)"
    by (cases sentences) (auto simp: generate_topic_title_def)
  show "int (length sentences) \<le> max_bullets \<longrightarrow>
      rank_bullets env sentences embeddings max_bullets = Inr sentences"
    by (simp add: rank_bullets_def)
  show "2 \<le> length sentences \<longrightarrow>
      ((\<exists>e. generate_topic_title env sentences embeddings = Inl e) \<longleftrightarrow>
       (case centroid_similarity env embeddings of
          Inl e \<Rightarrow> True
        | Inr sims \<Rightarrow> sims = [] \<or> length sentences \<le> length (takeWhile (\<lambda>x. x \<noteq> Max (set sims)) sims)))"
    by (cases sentences)
       (auto simp: generate_topic_title_def bind_def argmax_def split: sum.splits)
  show "max_bullets < int (length sentences) \<longrightarrow>
      ((\<exists>e. rank_bullets env sentences embeddings max_bullets = Inl e) \<longleftrightarrow>
       (case centroid_similarity env embeddings of
          Inl e \<Rightarrow> True
        | Inr scores \<Rightarrow> \<exists>i\<in>set (py_drop (- max_bullets) (argsort env scores)). length sentences \<le> i))"
    by (auto simp: rank_bullets_def bind_def lookup_all_eq Let_def not_less split: sum.splits)
  show "\<forall>ts. build_topics env S E clusters = Inr ts \<longrightarrow>
      (\<forall>c\<in>set clusters. \<exists>ce t bs.
          lookup_all E (filter (\<lambda>i. S ! i \<in> set (snd c)) [0..<length S]) = Inr ce \<and>
          generate_topic_title env (snd c) ce = Inr t \<and>
          rank_bullets env (snd c) ce MAX_BULLETS_PER_SLIDE = Inr bs)"
  proof (intro allI impI ballI)
    fix ts c assume "build_topics env S E clusters = Inr ts" and "c \<in> set clusters"
    then show "\<exists>ce t bs.
          lookup_all E (filter (\<lambda>i. S ! i \<in> set (snd c)) [0..<length S]) = Inr ce \<and>
          generate_topic_title env (snd c) ce = Inr t \<and>
          rank_bullets env (snd c) ce MAX_BULLETS_PER_SLIDE = Inr bs"
      using build_topics_Inr [of env S E clusters ts "fst c" "snd c"] by simp
  qed
  show "\<forall>r. process_text env text = Inr r \<longrightarrow> split_sentences (clean_text text) \<noteq> [] \<longrightarrow>
      (\<exists>E' clusters' ts.
          cluster_sentences env (split_sentences (clean_text text)) E' None = Inr clusters' \<and>
          build_topics env (split_sentences (clean_text text)) E' clusters' = Inr ts)"
    using process_text_Inr by blast
qed

theorem synthesis_failure_cases_witness:
  "generate_topic_title demo_backend [''Costs also grew.''] [] = Inr ''Costs also grew'' \<and>
   rank_bullets demo_backend [''a b c'', ''d e f''] [5] 5 = Inr [''a b c'', ''d e f''] \<and>
   generate_topic_title demo_backend [''a b c'', ''d e f''] [5, 5, 7] = Inl IndexError \<and>
   rank_bullets demo_backend [''a b c'', ''d e f''] [5, 5, 7] 1 = Inl IndexError"
proof -
  let ?one = "[''Costs also grew.'']" and ?two = "[''a b c'', ''d e f'']"
  have l1: "length ?one = 1" by simp
  have s1: "shorten_sentence (hd ?one) 6 = ''Costs also grew''" by code_simp
  from synthesis_failure_cases [of demo_backend "[]" ?one] l1
  have "generate_topic_title demo_backend ?one [] = Inr (shorten_sentence (hd ?one) 6)" by blast
  then have A: "generate_topic_title demo_backend ?one [] = Inr ''Costs also grew''"
    by (simp only: s1)
  have l2: "int (length ?two) \<le> 5" by simp
  from synthesis_failure_cases [of demo_backend "[5]" ?two 5] l2
  have B: "rank_bullets demo_backend ?two [5] 5 = Inr ?two" by blast
  have l3: "2 \<le> length ?two" by simp
  have c3: "(case centroid_similarity demo_backend [5, 5, 7] of
               Inl e \<Rightarrow> True
             | Inr sims \<Rightarrow> sims = [] \<or>
                 length ?two \<le> length (takeWhile (\<lambda>x. x \<noteq> Max (set sims)) sims))"
    by (simp add: demo_backend_def)
  from synthesis_failure_cases [of demo_backend "[5, 5, 7]" ?two] l3 c3
  have "\<exists>e. generate_topic_title demo_backend ?two [5, 5, 7] = Inl e" by blast
  moreover have "generate_topic_title demo_backend ?two [5, 5, 7] = Inl IndexError" by code_simp
  ultimately have C: "generate_topic_title demo_backend ?two [5, 5, 7] = Inl IndexError" by blast
  have D: "rank_bullets demo_backend ?two [5, 5, 7] 1 = Inl IndexError" by code_simp
  from A B C D show ?thesis by blast
qed

text \<open>
  As the claim is stated it fails on an empty cluster, and on clusters whose embedding
  matrix has fewer rows than they have sentences: each of these calls returns.
\<close>

theorem synthesis_malformed_counterexample:
  "generate_topic_title demo_backend [] [] = Inr ''Topic'' \<and>
   rank_bullets demo_backend [] [] MAX_BULLETS_PER_SLIDE = Inr [] \<and>
   generate_topic_title demo_backend [''Costs also grew''] [] = Inr ''Costs also grew'' \<and>
   rank_bullets demo_backend [''a b c'', ''d e f''] [5] MAX_BULLETS_PER_SLIDE = Inr [''a b c'', ''d e f'']"
  by code_simp

lemma build_topics_pairs:
  "build_topics env S E clusters = Inr ts \<Longrightarrow>
   map (\<lambda>t. (topic_id t, sentence_count t)) ts = map (\<lambda>c. (fst c, length (snd c))) clusters"
proof (induction clusters arbitrary: ts)
  case Nil
  then show ?case by simp
next
  case (Cons c clusters)
  obtain cid cs where c: "c = (cid, cs)" by (cases c)
  from Cons.prems c obtain t bs ts' where
    h: "build_topics env S E clusters = Inr ts'"
       "ts = \<lparr>topic_id = cid, title = t, bullets = bs, sentence_count = length cs\<rparr> # ts'"
    by (auto simp: bind_def Let_def split: sum.splits)
  from Cons.IH [OF h(1)] h(2) c show ?case by simp
qed

lemma sort_reverse_sorted: "sorted (rev (map key (sort_reverse key xs)))"
  by (simp add: sort_reverse_def rev_map)

lemma sort_reverse_stable:
  "filter (\<lambda>y. key y = k) (sort_reverse key xs) = filter (\<lambda>y. key y = k) xs"
proof -
  have "filter (\<lambda>y. key y = k) (sort_reverse key xs) =
        rev (filter (\<lambda>y. key y = k) (sort_key key (rev xs)))"
    by (simp add: sort_reverse_def rev_filter)
  also have "\<dots> = rev (filter (\<lambda>y. key y = k) (rev xs))"
    by (simp only: sort_key_stable)
  also have "\<dots> = filter (\<lambda>y. key y = k) xs"
    by (simp add: rev_filter)
  finally show ?thesis .
qed

lemma mset_sort_reverse: "mset (sort_reverse key xs) = mset xs"
  by (simp add: sort_reverse_def)

lemma set_py_drop: "set (py_drop s xs) \<subseteq> set xs"
  by (auto simp: py_drop_def dest: in_set_dropD)

lemma title_total:
  assumes "length ce = length cs"
    and "\<forall>rows. rows \<noteq> [] \<longrightarrow>
        (\<exists>scores. centroid_similarity env rows = Inr scores \<and> length scores = length rows \<and>
           (\<forall>i\<in>set (argsort env scores). i < length scores))"
  shows "\<exists>t. generate_topic_title env cs ce = Inr t"
proof (cases "length cs \<le> 1")
  case True
  then show ?thesis by (cases cs) (auto simp: generate_topic_title_def)
next
  case False
  with assms(1) have "ce \<noteq> []" by auto
  with assms(2) obtain sims where
    s: "centroid_similarity env ce = Inr sims" "length sims = length ce" by blast
  with \<open>ce \<noteq> []\<close> have "sims \<noteq> []" by auto
  from argmax_in_range [OF this] obtain i where i: "argmax sims = Inr i" "i < length sims" by blast
  with s assms(1) False show ?thesis
    by (auto simp: generate_topic_title_def bind_def)
qed

lemma bullets_total:
  assumes "length ce = length cs"
    and "\<forall>rows. rows \<noteq> [] \<longrightarrow>
        (\<exists>scores. centroid_similarity env rows = Inr scores \<and> length scores = length rows \<and>
           (\<forall>i\<in>set (argsort env scores). i < length scores))"
    and "0 \<le> m"
  shows "\<exists>bs. rank_bullets env cs ce m = Inr bs"
proof (cases "int (length cs) \<le> m")
  case True
  then show ?thesis by (simp add: rank_bullets_def)
next
  case False
  show ?thesis
  proof (cases "ce = []")
    case True
    with assms(1) have "cs = []" by simp
    with False assms(3) show ?thesis by simp
  next
    case ne: False
    with assms(2) obtain scores where
      s: "centroid_similarity env ce = Inr scores" "length scores = length ce"
         "\<forall>i\<in>set (argsort env scores). i < length scores" by blast
    have "\<forall>i\<in>set (rev (py_drop (- m) (argsort env scores))). i < length cs"
      using s(2,3) assms(1) set_py_drop [of "- m" "argsort env scores"] by auto
    with s(1) False show ?thesis
      by (simp add: rank_bullets_def bind_def lookup_all_eq Let_def)
  qed
qed

lemma build_topics_total:
  assumes "length E = length S"
    and "\<forall>rows. rows \<noteq> [] \<longrightarrow>
        (\<exists>scores. centroid_similarity env rows = Inr scores \<and> length scores = length rows \<and>
           (\<forall>i\<in>set (argsort env scores). i < length scores))"
    and "\<forall>c\<in>set clusters. length (filter (\<lambda>i. S ! i \<in> set (snd c)) [0..<length S]) = length (snd c)"
  shows "\<exists>ts. build_topics env S E clusters = Inr ts"
  using assms(3)
proof (induction clusters)
  case Nil
  then show ?case by simp
next
  case (Cons c clusters)
  obtain cid cs where c: "c = (cid, cs)" by (cases c)
  let ?idx = "filter (\<lambda>i. S ! i \<in> set cs) [0..<length S]"
  let ?ce = "map (\<lambda>i. E ! i) ?idx"
  have look: "lookup_all E ?idx = Inr ?ce"
    using assms(1) by (simp add: lookup_all_eq)
  from Cons.prems c have len: "length ?ce = length cs" by simp
  from title_total [OF len assms(2)] obtain t where t: "generate_topic_title env cs ?ce = Inr t" ..
  have "0 \<le> MAX_BULLETS_PER_SLIDE" by (simp add: MAX_BULLETS_PER_SLIDE_def)
  from bullets_total [OF len assms(2) this] obtain bs where
    bs: "rank_bullets env cs ?ce MAX_BULLETS_PER_SLIDE = Inr bs" ..
  from Cons obtain ts where ts: "build_topics env S E clusters = Inr ts" by auto
  from look t bs ts c show ?case by (simp add: bind_def)
qed

lemma no_foreign_members:
  assumes "length L = length S"
    and "\<forall>i<length S. \<forall>j<length S. S ! i = S ! j \<longrightarrow> L ! i = L ! j"
    and "group_loop S L 0 L [] = Inr clusters"
    and "c \<in> set clusters"
  shows "length (filter (\<lambda>i. S ! i \<in> set (snd c)) [0..<length S]) = length (snd c)"
proof -
  let ?n = "length S"
  from group_loop_result [OF assms(1)] obtain clusters' where
    run: "group_loop S L 0 L [] = Inr clusters'" and
    dist': "distinct (map fst clusters')" and
    mem': "\<And>k. cluster_of clusters' k = map (\<lambda>i. S ! i) (filter (\<lambda>i. relabel L (L ! i) = k) [0..<?n])"
    by blast
  from run assms(3) have same: "clusters' = clusters" by simp
  have dist: "distinct (map fst clusters)" using dist' by (simp only: same)
  have mem: "cluster_of clusters k = map (\<lambda>i. S ! i) (filter (\<lambda>i. relabel L (L ! i) = k) [0..<?n])" for k
    using mem' [of k] by (simp only: same)
  obtain k vs where c: "c = (k, vs)" by (cases c)
  with assms(4) have "(k, vs) \<in> set clusters" by simp
  with dist have "cluster_of clusters k = vs" by (rule cluster_of_member)
  with mem [of k] have vs: "vs = map (\<lambda>i. S ! i) (filter (\<lambda>i. relabel L (L ! i) = k) [0..<?n])"
    by (simp only:)
  have "filter (\<lambda>i. S ! i \<in> set vs) [0..<?n] = filter (\<lambda>i. relabel L (L ! i) = k) [0..<?n]"
  proof (rule filter_cong [OF refl])
    fix i assume "i \<in> set [0..<?n]"
    then have i: "i < ?n" by simp
    show "(S ! i \<in> set vs) = (relabel L (L ! i) = k)"
    proof
      assume "S ! i \<in> set vs"
      then have "S ! i \<in> (\<lambda>i. S ! i) ` {j. j < ?n \<and> relabel L (L ! j) = k}"
        by (subst (asm) vs) auto
      then obtain j where j: "j < ?n" "relabel L (L ! j) = k" "S ! j = S ! i" by auto
      from assms(2) j(1) i have "S ! j = S ! i \<longrightarrow> L ! j = L ! i" by blast
      with j(3) have "L ! j = L ! i" by blast
      with j(2) show "relabel L (L ! i) = k" by (simp only:)
    next
      assume "relabel L (L ! i) = k"
      with i have "S ! i \<in> (\<lambda>i. S ! i) ` {j. j < ?n \<and> relabel L (L ! j) = k}" by blast
      then show "S ! i \<in> set vs" by (subst vs) auto
    qed
  qed
  moreover have "length vs = length (filter (\<lambda>i. relabel L (L ! i) = k) [0..<?n])"
    by (subst vs) simp
  ultimately have "length (filter (\<lambda>i. S ! i \<in> set vs) [0..<?n]) = length vs"
    by (simp only:)
  with c show ?thesis by simp
qed

lemma process_text_returns:
  assumes "split_sentences (clean_text text) = [] \<or> reliable env (split_sentences (clean_text text))"
  shows "\<exists>r. process_text env text = Inr r"
proof (cases "split_sentences (clean_text text) = []")
  case True
  then show ?thesis by (simp add: process_text_def)
next
  case False
  let ?S = "split_sentences (clean_text text)"
  from False assms have rel: "reliable env ?S" by simp
  then obtain E where
    E: "encode env ?S = Inr E" "length E = length ?S" and
    fit: "\<And>c. \<exists>L. fit_predict env c E = Inr L \<and> length L = length ?S \<and>
            (\<forall>i<length ?S. \<forall>j<length ?S. ?S ! i = ?S ! j \<longrightarrow> L ! i = L ! j)" and
    sc: "\<forall>rows. rows \<noteq> [] \<longrightarrow>
        (\<exists>scores. centroid_similarity env rows = Inr scores \<and> length scores = length rows \<and>
           (\<forall>i\<in>set (argsort env scores). i < length scores))"
    unfolding reliable_def by blast
  have emb: "generate_embeddings env ?S = Inr E"
    using False E by (simp add: generate_embeddings_def)
  have "\<exists>clusters. cluster_sentences env ?S E None = Inr clusters \<and>
      (\<forall>c\<in>set clusters. length (filter (\<lambda>i. ?S ! i \<in> set (snd c)) [0..<length ?S]) = length (snd c))"
  proof (cases "length ?S < 2")
    case True
    then show ?thesis by (simp add: cluster_sentences_def)
  next
    case big: False
    let ?c = "if CLUSTERING_METHOD = ''hdbscan'' \<and> hdbscan_available env
              then HDBSCAN MIN_CLUSTER_SIZE ''euclidean''
              else KMeans (min (min MAX_TOPICS (max 2 (int (length ?S) div 5))) (int (length ?S))) 42 10"
    from fit [of ?c] obtain L where
      L: "fit_predict env ?c E = Inr L" "length L = length ?S"
         "\<forall>i<length ?S. \<forall>j<length ?S. ?S ! i = ?S ! j \<longrightarrow> L ! i = L ! j" by blast
    from group_loop_result [OF L(2)] obtain clusters where
      g: "group_loop ?S L 0 L [] = Inr clusters" by blast
    have "cluster_sentences env ?S E None = Inr clusters"
      using big L(1) g by (simp add: cluster_sentences_def Let_def bind_def)
    moreover have "\<forall>c\<in>set clusters.
        length (filter (\<lambda>i. ?S ! i \<in> set (snd c)) [0..<length ?S]) = length (snd c)"
      using no_foreign_members [OF L(2) L(3) g] by blast
    ultimately show ?thesis by blast
  qed
  then obtain clusters where
    cl: "cluster_sentences env ?S E None = Inr clusters" and
    ok: "\<forall>c\<in>set clusters. length (filter (\<lambda>i. ?S ! i \<in> set (snd c)) [0..<length ?S]) = length (snd c)"
    by blast
  from build_topics_total [OF E(2) sc ok] obtain ts where
    "build_topics env ?S E clusters = Inr ts" ..
  with False emb cl show ?thesis by (simp add: process_text_def bind_def Let_def)
qed

lemma group_loop_keys:
  assumes "group_loop S L 0 L [] = Inr clusters"
  shows "map fst clusters = first_seen (map (relabel L) L)"
proof -
  from assms have len: "L = [] \<or> length L \<le> length S"
    and cl: "clusters = fold (group_step L) (zip L S) []"
    by (auto simp: group_loop_fold split: if_splits)
  from len have "map fst (zip L S) = L"
    by (auto simp: map_fst_zip_take)
  moreover have "map (\<lambda>p. relabel L (fst p)) (zip L S) = map (relabel L) (map fst (zip L S))"
    by (simp only: map_map comp_def)
  ultimately have "map (\<lambda>p. relabel L (fst p)) (zip L S) = map (relabel L) L"
    by (simp only:)
  then show ?thesis by (simp add: cl keys_fold)
qed

lemma clean_text_whitespace:
  assumes "\<forall>c\<in>set t. is_space c"
  shows "clean_text t = []"
proof -
  have sp: "is_space CHR '' ''" by (simp add: is_space_def)
  have "\<forall>c\<in>set (collapse_whitespace t). is_space c"
    using assms sp collapse_subset by blast
  then have "\<forall>c\<in>set (remove_special (collapse_whitespace t)). is_space c"
    by (simp add: remove_special_def)
  then have "dropWhile is_space (remove_special (collapse_whitespace t)) = []"
    by simp
  then show ?thesis by (simp only: clean_text_def strip_def rev.simps dropWhile.simps)
qed

lemma split_sentences_Nil: "split_sentences [] = []"
  by (simp add: split_sentences_def re_split_Nil strip_def)

lemma reliable_demo: "reliable demo_backend S"
proof -
  let ?lab = "\<lambda>e::nat. if even e then - 1 else (0::int)"
  have "\<forall>clusterer. \<exists>labels. fit_predict demo_backend clusterer (map length S) = Inr labels \<and>
           length labels = length S \<and>
           (\<forall>i<length S. \<forall>j<length S. S ! i = S ! j \<longrightarrow> labels ! i = labels ! j)"
  proof
    fix clusterer
    have "fit_predict demo_backend clusterer (map length S) = Inr (map ?lab (map length S))"
      by (simp add: demo_backend_def)
    moreover have "\<forall>i<length S. \<forall>j<length S. S ! i = S ! j \<longrightarrow>
        map ?lab (map length S) ! i = map ?lab (map length S) ! j"
      by simp
    ultimately show "\<exists>labels. fit_predict demo_backend clusterer (map length S) = Inr labels \<and>
           length labels = length S \<and>
           (\<forall>i<length S. \<forall>j<length S. S ! i = S ! j \<longrightarrow> labels ! i = labels ! j)"
      by (intro exI [of _ "map ?lab (map length S)"]) simp
  qed
  moreover have "encode demo_backend S = Inr (map length S)" by (simp add: demo_backend_def)
  moreover have "\<forall>rows. rows \<noteq> [] \<longrightarrow>
        (\<exists>scores. centroid_similarity demo_backend rows = Inr scores \<and> length scores = length rows \<and>
           (\<forall>i\<in>set (argsort demo_backend scores). i < length scores))"
    by (simp add: demo_backend_def)
  ultimately show ?thesis unfolding reliable_def by (intro conjI exI [of _ "map length S"]) simp_all
qed


lemma demo_run:
  "process_text demo_backend ''Revenue grew sharply. Costs also grew. Profit margins held.'' =
     Inr \<lparr>topics =
            [\<lparr>topic_id = 0, title = ''Profit margins held'',
               bullets = [''Costs also grew'', ''Profit margins held''], sentence_count = 2\<rparr>,
             \<lparr>topic_id = 1, title = ''Revenue grew sharply'',
               bullets = [''Revenue grew sharply''], sentence_count = 1\<rparr>],
          slide_count = 4, total_sentences = 3\<rparr>"
  by code_simp

section \<open>The pipeline result\<close>

text \<open>
  C1. \<open>process_text\<close> is claimed to return \<open>slide_count = len(topics) + 2\<close> on every
  input, 2 on an empty one. The code returns early on a text without sentences, with
  no topic, \<open>total_sentences\<close> 0 and \<open>slide_count\<close> 0; a text of whitespace only is such a
  text. On a text with a sentence every result has \<open>slide_count = len(topics) + 2\<close>, and
  there is a result when the libraries keep their contracts.
\<close>

theorem slide_count_rule:
  "(split_sentences (clean_text text) = [] \<longrightarrow>
      process_text env text = Inr \<lparr>topics = [], slide_count = 0, total_sentences = 0\<rparr>) \<and>
   ((\<forall>c\<in>set text. is_space c) \<longrightarrow> split_sentences (clean_text text) = []) \<and>
   (\<forall>r. process_text env text = Inr r \<longrightarrow> split_sentences (clean_text text) \<noteq> [] \<longrightarrow>
      slide_count r = length (topics r) + 2) \<and>
   (reliable env (split_sentences (clean_text text)) \<longrightarrow> (\<exists>r. process_text env text = Inr r))"
proof (intro conjI allI impI)
  assume "split_sentences (clean_text text) = []"
  then show "process_text env text = Inr \<lparr>topics = [], slide_count = 0, total_sentences = 0\<rparr>"
    by (simp add: process_text_def)
next
  assume "\<forall>c\<in>set text. is_space c"
  then show "split_sentences (clean_text text) = []"
    by (simp add: clean_text_whitespace split_sentences_Nil)
next
  fix r assume "process_text env text = Inr r" and "split_sentences (clean_text text) \<noteq> []"
  from process_text_Inr [OF this] show "slide_count r = length (topics r) + 2"
    by (auto simp: sort_reverse_def)
next
  assume "reliable env (split_sentences (clean_text text))"
  then show "\<exists>r. process_text env text = Inr r"
    using process_text_returns by blast
qed


theorem slide_count_rule_witness:
  "process_text demo_backend ''Revenue grew sharply. Costs also grew. Profit margins held.'' =
     Inr \<lparr>topics =
            [\<lparr>topic_id = 0, title = ''Profit margins held'',
               bullets = [''Costs also grew'', ''Profit margins held''], sentence_count = 2\<rparr>,
             \<lparr>topic_id = 1, title = ''Revenue grew sharply'',
               bullets = [''Revenue grew sharply''], sentence_count = 1\<rparr>],
          slide_count = 4, total_sentences = 3\<rparr> \<and>
   (4::nat) = length [''Profit margins held'', ''Revenue grew sharply''] + 2 \<and>
   split_sentences (clean_text ''  '') = [] \<and>
   process_text demo_backend ''  '' = Inr \<lparr>topics = [], slide_count = 0, total_sentences = 0\<rparr>"
proof -
  let ?T = "''Revenue grew sharply. Costs also grew. Profit margins held.''"
  let ?R = "\<lparr>topics =
            [\<lparr>topic_id = 0, title = ''Profit margins held'',
               bullets = [''Costs also grew'', ''Profit margins held''], sentence_count = 2\<rparr>,
             \<lparr>topic_id = 1, title = ''Revenue grew sharply'',
               bullets = [''Revenue grew sharply''], sentence_count = 1\<rparr>],
          slide_count = 4, total_sentences = 3\<rparr>"
  have e: "process_text demo_backend ?T = Inr ?R" by (rule demo_run)
  have ne: "split_sentences (clean_text ?T) \<noteq> []" by code_simp
  from slide_count_rule [of ?T demo_backend] e ne
  have "slide_count ?R = length (topics ?R) + 2" by blast
  then have n: "(4::nat) = length [''Profit margins held'', ''Revenue grew sharply''] + 2" by simp
  have ws: "\<forall>c\<in>set ''  ''. is_space c" by (simp add: is_space_def)
  from slide_count_rule [of "''  ''" demo_backend] ws
  have z: "split_sentences (clean_text ''  '') = []" by blast
  from slide_count_rule [of "''  ''" demo_backend] z
  have "process_text demo_backend ''  '' = Inr \<lparr>topics = [], slide_count = 0, total_sentences = 0\<rparr>"
    by blast
  with e n z show ?thesis by blast
qed

text \<open>
  As the claim is stated it fails on a text of whitespace: the result has no topic and
  \<open>slide_count\<close> 0, not 2.
\<close>

theorem slide_count_empty_counterexample:
  "process_text demo_backend '' '' = Inr \<lparr>topics = [], slide_count = 0, total_sentences = 0\<rparr> \<and>
   (0::nat) \<noteq> length ([] :: topic list) + 2"
proof
  show "process_text demo_backend '' '' = Inr \<lparr>topics = [], slide_count = 0, total_sentences = 0\<rparr>"
    by code_simp
  show "(0::nat) \<noteq> length ([] :: topic list) + 2" by simp
qed

text \<open>
  C2. When the libraries keep their contracts (or the text has no sentence),
  \<open>process_text\<close> returns a result whose \<open>total_sentences\<close> is the number of sentences of
  \<open>split_sentences(clean_text(text))\<close> and whose topics' \<open>sentence_count\<close> values sum to
  it; the clusters of \<open>cluster_sentences\<close> hold, taken together as a multiset, exactly
  the sentences, and the topics have the sizes of the clusters.
\<close>

theorem sentence_counts_add_up:
  assumes "split_sentences (clean_text text) = [] \<or> reliable env (split_sentences (clean_text text))"
  shows "\<exists>r. process_text env text = Inr r \<and>
      total_sentences r = length (split_sentences (clean_text text)) \<and>
      sum_list (map sentence_count (topics r)) = total_sentences r \<and>
      (split_sentences (clean_text text) \<noteq> [] \<longrightarrow>
         (\<exists>E clusters.
            generate_embeddings env (split_sentences (clean_text text)) = Inr E \<and>
            cluster_sentences env (split_sentences (clean_text text)) E None = Inr clusters \<and>
            mset (concat (map snd clusters)) = mset (split_sentences (clean_text text)) \<and>
            mset (map sentence_count (topics r)) = mset (map (\<lambda>c. length (snd c)) clusters)))"
proof (cases "split_sentences (clean_text text) = []")
  case True
  then show ?thesis by (simp add: process_text_def)
next
  case False
  let ?S = "split_sentences (clean_text text)"
  from False assms have rel: "reliable env ?S" by simp
  from process_text_returns [OF assms] obtain r where r: "process_text env text = Inr r" ..
  from process_text_Inr [OF r False] obtain E clusters ts where
    emb: "generate_embeddings env ?S = Inr E" and
    cl: "cluster_sentences env ?S E None = Inr clusters" and
    bt: "build_topics env ?S E clusters = Inr ts" and
    req: "r = \<lparr>topics = sort_reverse (\<lambda>t. sentence_count t) ts, slide_count = length ts + 2,
              total_sentences = length ?S\<rparr>"
    by blast
  have all: "mset (concat (map snd clusters)) = mset ?S"
  proof (cases "length ?S < 2")
    case True
    with cl have "[(0, ?S)] = clusters" by (simp add: cluster_sentences_def)
    then have "clusters = [(0, ?S)]" by (rule sym)
    then show ?thesis by simp
  next
    case big: False
    let ?c = "if CLUSTERING_METHOD = ''hdbscan'' \<and> hdbscan_available env
              then HDBSCAN MIN_CLUSTER_SIZE ''euclidean''
              else KMeans (min (min MAX_TOPICS (max 2 (int (length ?S) div 5))) (int (length ?S))) 42 10"
    from rel obtain E' where
      E': "encode env ?S = Inr E'" "length E' = length ?S" and
      fit: "\<And>c. \<exists>L. fit_predict env c E' = Inr L \<and> length L = length ?S \<and>
            (\<forall>i<length ?S. \<forall>j<length ?S. ?S ! i = ?S ! j \<longrightarrow> L ! i = L ! j)"
      unfolding reliable_def by blast
    from emb False have "encode env ?S = Inr E" by (simp add: generate_embeddings_def)
    with E'(1) have "E' = E" by simp
    with fit [of ?c] obtain L where
      L: "fit_predict env ?c E = Inr L" "length L = length ?S" by blast
    from group_loop_result [OF L(2)] obtain clusters' where
      g: "group_loop ?S L 0 L [] = Inr clusters'"
         "mset (concat (map snd clusters')) = mset ?S" by blast
    from cl big L(1) g(1) have "clusters' = clusters"
      by (simp add: cluster_sentences_def Let_def bind_def)
    with g(2) show ?thesis by (simp only:)
  qed
  have sizes: "map sentence_count ts = map (\<lambda>c. length (snd c)) clusters"
    using build_topics_shape [OF bt] by simp
  have tr: "topics r = sort_reverse (\<lambda>t. sentence_count t) ts"
    and tot: "total_sentences r = length ?S"
    by (simp_all add: req)
  have "mset (map sentence_count (topics r)) = image_mset sentence_count (mset (topics r))"
    by simp
  also have "\<dots> = image_mset sentence_count (mset ts)"
    by (simp only: tr mset_sort_reverse)
  also have "\<dots> = mset (map sentence_count ts)" by simp
  also have "\<dots> = mset (map (\<lambda>c. length (snd c)) clusters)" by (simp only: sizes)
  finally have m: "mset (map sentence_count (topics r)) = mset (map (\<lambda>c. length (snd c)) clusters)" .
  have "sum_list (map sentence_count (topics r)) = sum_mset (mset (map sentence_count (topics r)))"
    by (simp only: sum_mset_sum_list)
  also have "\<dots> = sum_mset (mset (map (\<lambda>c. length (snd c)) clusters))" by (simp only: m)
  also have "\<dots> = sum_list (map (\<lambda>c. length (snd c)) clusters)"
    by (simp only: sum_mset_sum_list)
  also have "\<dots> = length (concat (map snd clusters))"
    by (simp add: length_concat comp_def)
  also have "\<dots> = size (mset (concat (map snd clusters)))" by simp
  also have "\<dots> = length ?S" by (simp only: all size_mset)
  finally have sum: "sum_list (map sentence_count (topics r)) = total_sentences r"
    by (simp only: tot)
  from emb cl all m have "\<exists>E clusters.
            generate_embeddings env ?S = Inr E \<and>
            cluster_sentences env ?S E None = Inr clusters \<and>
            mset (concat (map snd clusters)) = mset ?S \<and>
            mset (map sentence_count (topics r)) = mset (map (\<lambda>c. length (snd c)) clusters)"
    by blast
  with r tot sum show ?thesis by blast
qed


theorem sentence_counts_add_up_witness:
  "process_text demo_backend ''Revenue grew sharply. Costs also grew. Profit margins held.'' =
     Inr \<lparr>topics =
            [\<lparr>topic_id = 0, title = ''Profit margins held'',
               bullets = [''Costs also grew'', ''Profit margins held''], sentence_count = 2\<rparr>,
             \<lparr>topic_id = 1, title = ''Revenue grew sharply'',
               bullets = [''Revenue grew sharply''], sentence_count = 1\<rparr>],
          slide_count = 4, total_sentences = 3\<rparr> \<and>
   length (split_sentences (clean_text ''Revenue grew sharply. Costs also grew. Profit margins held.'')) = 3 \<and>
   sum_list [2, 1 :: nat] = 3"
proof -
  let ?T = "''Revenue grew sharply. Costs also grew. Profit margins held.''"
  let ?R = "\<lparr>topics =
            [\<lparr>topic_id = 0, title = ''Profit margins held'',
               bullets = [''Costs also grew'', ''Profit margins held''], sentence_count = 2\<rparr>,
             \<lparr>topic_id = 1, title = ''Revenue grew sharply'',
               bullets = [''Revenue grew sharply''], sentence_count = 1\<rparr>],
          slide_count = 4, total_sentences = 3\<rparr>"
  have e: "process_text demo_backend ?T = Inr ?R" by (rule demo_run)
  have rel: "split_sentences (clean_text ?T) = [] \<or> reliable demo_backend (split_sentences (clean_text ?T))"
    using reliable_demo by blast
  from sentence_counts_add_up [OF rel] obtain r where
    r: "process_text demo_backend ?T = Inr r"
       "total_sentences r = length (split_sentences (clean_text ?T))"
       "sum_list (map sentence_count (topics r)) = total_sentences r"
    by blast
  from r(1) e have "r = ?R" by simp
  with r(2,3) have "total_sentences ?R = length (split_sentences (clean_text ?T))"
    and "sum_list (map sentence_count (topics ?R)) = total_sentences ?R"
    by (simp_all only:)
  then have "length (split_sentences (clean_text ?T)) = 3" and "sum_list [2, 1 :: nat] = 3"
    by simp_all
  with e show ?thesis by blast
qed

text \<open>
  C3. In a result of \<open>process_text\<close> the topics are in descending order of
  \<open>sentence_count\<close>, and the sort is stable: the topics of one \<open>sentence_count\<close> keep the
  order of their clusters in the dict of \<open>cluster_sentences\<close>, which is the order in which
  the (relabelled) labels first occur. That order need not be ascending in the cluster id.
\<close>

theorem topics_sorted_stably:
  assumes "process_text env text = Inr r"
  shows "sorted (rev (map sentence_count (topics r))) \<and>
     (split_sentences (clean_text text) \<noteq> [] \<longrightarrow>
        (\<exists>E clusters.
           generate_embeddings env (split_sentences (clean_text text)) = Inr E \<and>
           cluster_sentences env (split_sentences (clean_text text)) E None = Inr clusters \<and>
           (\<forall>k. map topic_id (filter (\<lambda>t. sentence_count t = k) (topics r)) =
                map fst (filter (\<lambda>c. length (snd c) = k) clusters)) \<and>
           (2 \<le> length (split_sentences (clean_text text)) \<longrightarrow>
              (\<exists>c L. fit_predict env c E = Inr L \<and>
                     map fst clusters = first_seen (map (relabel L) L)))))"
proof (cases "split_sentences (clean_text text) = []")
  case True
  with assms show ?thesis by (auto simp: process_text_def)
next
  case False
  let ?S = "split_sentences (clean_text text)"
  from process_text_Inr [OF assms False] obtain E clusters ts where
    emb: "generate_embeddings env ?S = Inr E" and
    cl: "cluster_sentences env ?S E None = Inr clusters" and
    bt: "build_topics env ?S E clusters = Inr ts" and
    req: "r = \<lparr>topics = sort_reverse (\<lambda>t. sentence_count t) ts, slide_count = length ts + 2,
              total_sentences = length ?S\<rparr>"
    by blast
  have srt: "sorted (rev (map sentence_count (topics r)))"
    by (simp add: req sort_reverse_sorted)
  have stable: "map topic_id (filter (\<lambda>t. sentence_count t = k) (topics r)) =
                map fst (filter (\<lambda>c. length (snd c) = k) clusters)" for k
  proof -
    have "map topic_id (filter (\<lambda>t. sentence_count t = k) (topics r)) =
          map topic_id (filter (\<lambda>t. sentence_count t = k) ts)"
      by (simp add: req sort_reverse_stable)
    also have "\<dots> = map fst (filter (\<lambda>p. snd p = k) (map (\<lambda>t. (topic_id t, sentence_count t)) ts))"
      by (simp add: filter_map comp_def)
    also have "\<dots> = map fst (filter (\<lambda>p. snd p = k) (map (\<lambda>c. (fst c, length (snd c))) clusters))"
      by (simp only: build_topics_pairs [OF bt])
    also have "\<dots> = map fst (filter (\<lambda>c. length (snd c) = k) clusters)"
      by (simp add: filter_map comp_def)
    finally show ?thesis .
  qed
  have disc: "\<exists>c L. fit_predict env c E = Inr L \<and> map fst clusters = first_seen (map (relabel L) L)"
    if big: "2 \<le> length ?S"
  proof -
    let ?c = "if CLUSTERING_METHOD = ''hdbscan'' \<and> hdbscan_available env
              then HDBSCAN MIN_CLUSTER_SIZE ''euclidean''
              else KMeans (min (min MAX_TOPICS (max 2 (int (length ?S) div 5))) (int (length ?S))) 42 10"
    from cl big obtain L where
      L: "fit_predict env ?c E = Inr L" "group_loop ?S L 0 L [] = Inr clusters"
      by (auto simp: cluster_sentences_def Let_def bind_def split: sum.splits)
    from group_loop_keys [OF L(2)] L(1) show ?thesis by blast
  qed
  from emb cl srt stable disc show ?thesis by blast
qed

theorem topics_sorted_stably_witness:
  "process_text demo_backend ''Revenue grew sharply. Costs also grew. Profit margins held.'' =
     Inr \<lparr>topics =
            [\<lparr>topic_id = 0, title = ''Profit margins held'',
               bullets = [''Costs also grew'', ''Profit margins held''], sentence_count = 2\<rparr>,
             \<lparr>topic_id = 1, title = ''Revenue grew sharply'',
               bullets = [''Revenue grew sharply''], sentence_count = 1\<rparr>],
          slide_count = 4, total_sentences = 3\<rparr> \<and>
   sorted (rev [2, 1 :: nat])"
proof -
  let ?T = "''Revenue grew sharply. Costs also grew. Profit margins held.''"
  let ?R = "\<lparr>topics =
            [\<lparr>topic_id = 0, title = ''Profit margins held'',
               bullets = [''Costs also grew'', ''Profit margins held''], sentence_count = 2\<rparr>,
             \<lparr>topic_id = 1, title = ''Revenue grew sharply'',
               bullets = [''Revenue grew sharply''], sentence_count = 1\<rparr>],
          slide_count = 4, total_sentences = 3\<rparr>"
  have e: "process_text demo_backend ?T = Inr ?R" by (rule demo_run)
  from topics_sorted_stably [OF e] have "sorted (rev (map sentence_count (topics ?R)))" by blast
  then have "sorted (rev [2, 1 :: nat])" by simp
  with e show ?thesis by blast
qed

text \<open>
  As the claim is stated, with ties in ascending order of cluster id, it fails when the
  noise cluster is discovered first: of four sentences labelled \<open>-1, -1, 0, 0\<close> the
  noise cluster has id 1 and comes first, cluster 0 second, both with 2 sentences, and
  the stable sort leaves them so.
\<close>

theorem tie_order_counterexample:
  "process_text demo_backend ''aa bb cc. dd ee ff. a b c. d e f.'' =
     Inr \<lparr>topics =
            [\<lparr>topic_id = 1, title = ''aa bb cc'',
               bullets = [''aa bb cc'', ''dd ee ff''], sentence_count = 2\<rparr>,
             \<lparr>topic_id = 0, title = ''a b c'',
               bullets = [''a b c'', ''d e f''], sentence_count = 2\<rparr>],
          slide_count = 4, total_sentences = 4\<rparr> \<and>
   \<not> sorted [1, 0 :: int]"
proof
  show "process_text demo_backend ''aa bb cc. dd ee ff. a b c. d e f.'' =
     Inr \<lparr>topics =
            [\<lparr>topic_id = 1, title = ''aa bb cc'',
               bullets = [''aa bb cc'', ''dd ee ff''], sentence_count = 2\<rparr>,
             \<lparr>topic_id = 0, title = ''a b c'',
               bullets = [''a b c'', ''d e f''], sentence_count = 2\<rparr>],
          slide_count = 4, total_sentences = 4\<rparr>"
    by code_simp
  show "\<not> sorted [1, 0 :: int]" by simp
qed

end
